theory Spec2Isabelle
  imports Main "HOL-Library.Product_Lexorder" "HOL-Library.Multiset"
begin

section \<open>Data model (schemas/taskmaster.ts)\<close>

text \<open>
  The zod schemas of the source. Identifiers are JavaScript numbers that the data model
  restricts to integers; they are modelled as \<open>int\<close> (fractions, infinities and
  NaN are outside the model). An optional field is an \<open>option\<close>.
\<close>

datatype TaskMasterStatus = Pending | In_progress | Done | Deferred | Cancelled | Blocked

datatype TaskMasterPriority = High | Medium | Low

record TaskMasterSubtask =
  sub_id :: int
  sub_title :: string
  sub_description :: string
  sub_status :: TaskMasterStatus
  sub_dependencies :: "int list option"
  sub_details :: "string option"

record TaskMasterTask =
  task_id :: int
  title :: string
  description :: string
  status :: TaskMasterStatus
  priority :: TaskMasterPriority
  dependencies :: "int list"
  complexity :: "int option"
  subtasks :: "TaskMasterSubtask list option"
  details :: "string option"
  testStrategy :: "string option"

text \<open>The string literal of each member of \<open>TaskMasterStatusSchema\<close>.\<close>

fun status_string :: "TaskMasterStatus \<Rightarrow> string" where
  "status_string Pending = ''pending''"
| "status_string In_progress = ''in-progress''"
| "status_string Done = ''done''"
| "status_string Deferred = ''deferred''"
| "status_string Cancelled = ''cancelled''"
| "status_string Blocked = ''blocked''"

text \<open>
  Every \<open>throw new Error(...)\<close> of the modelled files is one constructor, carrying the
  values the message interpolates. \<open>Gateway_failure\<close> is a rejection coming out of
  the external \<open>bd\<close> process, \<open>File_not_readable\<close> one of \<open>fs.readFile\<close>,
  \<open>Malformed_mapping_file\<close> a document \<open>load\<close> cannot read as a mapping file,
  \<open>Undefined_tier\<close> the value \<open>undefined\<close> where a tier is asserted.
\<close>

datatype error =
    Circular_dependency_detected int
  | Task_referenced_but_not_found int
  | Task_not_found_in_mapping int
  | Epic_ID_not_found_for_task int
  | Epic_ID_not_found_for_dependency int
  | Subtask_ID_not_found int int
  | Subtask_ID_not_found_for_dependency int int
  | Gateway_failure string
  | File_not_readable string
  | Malformed_mapping_file
  | Undefined_tier int

section \<open>Identifier mapping store (mapping/id-mapper.ts)\<close>

record SubtaskMapping =
  sub_tmId :: int
  sub_beadsId :: string

record TaskMapping =
  tmId :: int
  beadsId :: string
  mapped_subtasks :: "SubtaskMapping list"

text \<open>The class \<open>IdMapper\<close>: its one private field \<open>tasks\<close>.\<close>

record IdMapper =
  mapper_tasks :: "TaskMapping list"

definition new_IdMapper :: IdMapper where
  "new_IdMapper = \<lparr>mapper_tasks = []\<rparr>"

definition addEpic :: "int \<Rightarrow> string \<Rightarrow> IdMapper \<Rightarrow> IdMapper" where
  "addEpic tm bd m =
     m\<lparr>mapper_tasks := mapper_tasks m @ [\<lparr>tmId = tm, beadsId = bd, mapped_subtasks = []\<rparr>]\<rparr>"

text \<open>
  \<open>task.subtasks.push(...)\<close> on the entry that \<open>Array.prototype.find\<close> returned:
  the first entry with the given \<open>tmId\<close> is the one that changes.
\<close>

fun push_subtask :: "int \<Rightarrow> SubtaskMapping \<Rightarrow> TaskMapping list \<Rightarrow> TaskMapping list" where
  "push_subtask k s [] = []"
| "push_subtask k s (t # ts) =
     (if tmId t = k then t\<lparr>mapped_subtasks := mapped_subtasks t @ [s]\<rparr> # ts
      else t # push_subtask k s ts)"

text \<open>
  A method that can throw returns its outcome together with the store as the call leaves
  it, so that what a failed call did to the store is part of the model.
\<close>

definition addSubtask :: "int \<Rightarrow> int \<Rightarrow> string \<Rightarrow> IdMapper \<Rightarrow> (error + unit) \<times> IdMapper" where
  "addSubtask taskTmId subtaskTmId bd m =
     (case find (\<lambda>t. tmId t = taskTmId) (mapper_tasks m) of
        None \<Rightarrow> (Inl (Task_not_found_in_mapping taskTmId), m)
      | Some task \<Rightarrow>
          (Inr (),
           m\<lparr>mapper_tasks :=
               push_subtask taskTmId \<lparr>sub_tmId = subtaskTmId, sub_beadsId = bd\<rparr> (mapper_tasks m)\<rparr>))"

definition getEpicId :: "IdMapper \<Rightarrow> int \<Rightarrow> string option" where
  "getEpicId m tm = map_option beadsId (find (\<lambda>t. tmId t = tm) (mapper_tasks m))"

definition getSubtaskId :: "IdMapper \<Rightarrow> int \<Rightarrow> int \<Rightarrow> string option" where
  "getSubtaskId m taskTmId subtaskTmId =
     (case find (\<lambda>t. tmId t = taskTmId) (mapper_tasks m) of
        None \<Rightarrow> None
      | Some task \<Rightarrow>
          map_option sub_beadsId (find (\<lambda>s. sub_tmId s = subtaskTmId) (mapped_subtasks task)))"

definition getStats :: "IdMapper \<Rightarrow> nat \<times> nat" where
  "getStats m =
     (length (mapper_tasks m),
      foldl (\<lambda>sum t. sum + length (mapped_subtasks t)) 0 (mapper_tasks m))"

subsection \<open>Persistence\<close>

text \<open>
  The mapping file is a JSON document. \<open>JSON.stringify\<close> and \<open>JSON.parse\<close> belong to
  the runtime, not to the repository: the model keeps the document as the JSON value that
  the text denotes, and a file system as a map from paths to documents.
\<close>

datatype json =
    JNull
  | JNumber int
  | JString string
  | JArray "json list"
  | JObject "(string \<times> json) list"

type_synonym filesystem = "string \<rightharpoonup> json"

definition subtask_json :: "SubtaskMapping \<Rightarrow> json" where
  "subtask_json s = JObject [(''tmId'', JNumber (sub_tmId s)), (''beadsId'', JString (sub_beadsId s))]"

definition task_json :: "TaskMapping \<Rightarrow> json" where
  "task_json t =
     JObject [(''tmId'', JNumber (tmId t)), (''beadsId'', JString (beadsId t)),
              (''subtasks'', JArray (map subtask_json (mapped_subtasks t)))]"

text \<open>\<open>now\<close> is \<open>new Date().toISOString()\<close> at the time of the call.\<close>

definition mapping_file :: "string \<Rightarrow> IdMapper \<Rightarrow> json" where
  "mapping_file now m =
     JObject [(''version'', JString ''1.0''), (''generatedAt'', JString now),
              (''tasks'', JArray (map task_json (mapper_tasks m)))]"

definition save :: "string \<Rightarrow> string \<Rightarrow> IdMapper \<Rightarrow> filesystem \<Rightarrow> filesystem" where
  "save now filePath m fs = fs(filePath \<mapsto> mapping_file now m)"

text \<open>
  \<open>load\<close> assigns \<open>data.tasks\<close> to the new mapper without looking at it. Reading the
  entries back as \<open>TaskMapping\<close> values is the cast \<open>const data: MappingFile\<close>; a
  document of any other shape is outside the interface and is reported as
  \<open>Malformed_mapping_file\<close> here.
\<close>

fun field :: "string \<Rightarrow> json \<Rightarrow> json option" where
  "field k (JObject kvs) = map_of (rev kvs) k"
| "field k _ = None"

fun those_list :: "'a option list \<Rightarrow> 'a list option" where
  "those_list [] = Some []"
| "those_list (x # xs) =
     (case x of None \<Rightarrow> None
      | Some y \<Rightarrow> (case those_list xs of None \<Rightarrow> None | Some ys \<Rightarrow> Some (y # ys)))"

definition read_subtask :: "json \<Rightarrow> SubtaskMapping option" where
  "read_subtask j =
     (case (field ''tmId'' j, field ''beadsId'' j) of
        (Some (JNumber n), Some (JString b)) \<Rightarrow> Some \<lparr>sub_tmId = n, sub_beadsId = b\<rparr>
      | _ \<Rightarrow> None)"

definition read_task :: "json \<Rightarrow> TaskMapping option" where
  "read_task j =
     (case (field ''tmId'' j, field ''beadsId'' j, field ''subtasks'' j) of
        (Some (JNumber n), Some (JString b), Some (JArray ss)) \<Rightarrow>
          (case those_list (map read_subtask ss) of
             None \<Rightarrow> None
           | Some subs \<Rightarrow> Some \<lparr>tmId = n, beadsId = b, mapped_subtasks = subs\<rparr>)
      | _ \<Rightarrow> None)"

definition load :: "string \<Rightarrow> filesystem \<Rightarrow> error + IdMapper" where
  "load filePath fs =
     (case fs filePath of
        None \<Rightarrow> Inl (File_not_readable filePath)
      | Some data \<Rightarrow>
          (case field ''tasks'' data of
             Some (JArray ts) \<Rightarrow>
               (case those_list (map read_task ts) of
                  None \<Rightarrow> Inl Malformed_mapping_file
                | Some tasks \<Rightarrow> Inr \<lparr>mapper_tasks = tasks\<rparr>)
           | _ \<Rightarrow> Inl Malformed_mapping_file))"

definition exists_file :: "string \<Rightarrow> filesystem \<Rightarrow> bool" where
  "exists_file filePath fs = (fs filePath \<noteq> None)"

text \<open>A store built by a sequence of \<open>addEpic\<close> and \<open>addSubtask\<close> calls; a call that
  throws leaves the store as it was and the sequence goes on (the caller caught it).\<close>

datatype mapper_op = AddEpic int string | AddSubtask int int string

fun apply_mapper_op :: "IdMapper \<Rightarrow> mapper_op \<Rightarrow> IdMapper" where
  "apply_mapper_op m (AddEpic tm bd) = addEpic tm bd m"
| "apply_mapper_op m (AddSubtask t s bd) = snd (addSubtask t s bd m)"

definition build_mapper :: "mapper_op list \<Rightarrow> IdMapper" where
  "build_mapper ops = foldl apply_mapper_op new_IdMapper ops"

section \<open>Referential integrity (schemas/taskmaster.ts)\<close>

text \<open>
  A message of a \<open>ValidationResult\<close>, with the values its template interpolates:
  \<open>Task ${task.id} depends on non-existent task ${depId}\<close> and
  \<open>Circular dependency: ${cycle.join(sep)}\<close> (the separator is an arrow between spaces).
\<close>

datatype message =
    Depends_on_non_existent int int
  | Circular_dependency "int list"

record ValidationResult =
  valid :: bool
  errors :: "message list"

text \<open>The inner and the outer \<open>for\<close> loop of \<open>validateDependencyIds\<close>, with the
  array \<open>errors\<close> they push to.\<close>

fun check_dependencies :: "int set \<Rightarrow> int \<Rightarrow> int list \<Rightarrow> message list \<Rightarrow> message list" where
  "check_dependencies validIds tid [] errs = errs"
| "check_dependencies validIds tid (depId # ds) errs =
     check_dependencies validIds tid ds
       (if depId \<notin> validIds then errs @ [Depends_on_non_existent tid depId] else errs)"

fun check_tasks :: "int set \<Rightarrow> TaskMasterTask list \<Rightarrow> message list \<Rightarrow> message list" where
  "check_tasks validIds [] errs = errs"
| "check_tasks validIds (task # ts) errs =
     check_tasks validIds ts (check_dependencies validIds (task_id task) (dependencies task) errs)"

definition validateDependencyIds :: "TaskMasterTask list \<Rightarrow> ValidationResult" where
  "validateDependencyIds tasks =
     (let validIds = set (map task_id tasks);
          errs = check_tasks validIds tasks []
      in \<lparr>valid = (length errs = 0), errors = errs\<rparr>)"

section \<open>Dependency graph of a task set\<close>

text \<open>
  \<open>new Map(tasks.map((t) => [t.id, t]))\<close>: of two tasks with the same id the later
  one stays in the map.
\<close>

definition taskMap_of :: "TaskMasterTask list \<Rightarrow> (int \<rightharpoonup> TaskMasterTask)" where
  "taskMap_of tasks = map_of (rev (map (\<lambda>t. (task_id t, t)) tasks))"

text \<open>The edges a traversal follows: from the id of a task in the map to each id in its
  dependency list.\<close>

definition dep_rel :: "(int \<rightharpoonup> TaskMasterTask) \<Rightarrow> (int \<times> int) set" where
  "dep_rel tm = {(i, d). \<exists>t. tm i = Some t \<and> d \<in> set (dependencies t)}"

text \<open>Referentially complete: every dependency id is the id of a task. Cyclic: some id
  reaches itself along dependency edges.\<close>

definition complete :: "(int \<rightharpoonup> TaskMasterTask) \<Rightarrow> bool" where
  "complete tm = (\<forall>(i, d) \<in> dep_rel tm. d \<in> dom tm)"

definition cyclic :: "(int \<rightharpoonup> TaskMasterTask) \<Rightarrow> bool" where
  "cyclic tm = (\<exists>i. (i, i) \<in> (dep_rel tm)\<^sup>+)"

section \<open>Topological tiering sort (utils/topological-sort.ts)\<close>

record SortedTask =
  s_task :: TaskMasterTask
  tier :: int

text \<open>The four mutable collections that the closure \<open>visit\<close> shares.\<close>

record sort_state =
  visited :: "int set"
  visiting :: "int set"
  sorted_acc :: "SortedTask list"
  tierMap :: "int \<rightharpoonup> int"

definition initial_sort_state :: sort_state where
  "initial_sort_state = \<lparr>visited = {}, visiting = {}, sorted_acc = [], tierMap = Map.empty\<rparr>"

text \<open>
  \<open>visit\<close> and its \<open>for\<close> loop over the dependencies. The first argument bounds the
  depth of the recursion: \<open>None\<close> means that the bound was reached, that is, no result.
  A \<open>throw\<close> is \<open>Some (Inl e)\<close>, a \<open>return\<close> is \<open>Some (Inr (tier, state))\<close>.
  \<open>tierMap.get(taskId)!\<close> asserts an entry; without one the value would be
  \<open>undefined\<close>, which the model reports as \<open>Undefined_tier\<close>.
\<close>

fun visit :: "nat \<Rightarrow> (int \<rightharpoonup> TaskMasterTask) \<Rightarrow> int \<Rightarrow> sort_state \<Rightarrow> (error + int \<times> sort_state) option"
and visit_dependencies :: "nat \<Rightarrow> (int \<rightharpoonup> TaskMasterTask) \<Rightarrow> int list \<Rightarrow> int \<Rightarrow> sort_state \<Rightarrow> (error + int \<times> sort_state) option"
where
  "visit 0 taskMap taskId st = None"
| "visit (Suc n) taskMap taskId st =
     (if taskId \<in> visited st then
        (case tierMap st taskId of
           Some k \<Rightarrow> Some (Inr (k, st))
         | None \<Rightarrow> Some (Inl (Undefined_tier taskId)))
      else if taskId \<in> visiting st then Some (Inl (Circular_dependency_detected taskId))
      else
        (case taskMap taskId of
           None \<Rightarrow> Some (Inl (Task_referenced_but_not_found taskId))
         | Some task \<Rightarrow>
             (case visit_dependencies n taskMap (dependencies task) (- 1)
                     (st\<lparr>visiting := insert taskId (visiting st)\<rparr>) of
                None \<Rightarrow> None
              | Some (Inl e) \<Rightarrow> Some (Inl e)
              | Some (Inr (maxDepTier, st')) \<Rightarrow>
                  (let t = maxDepTier + 1 in
                   Some (Inr (t,
                     st'\<lparr>tierMap := (tierMap st')(taskId \<mapsto> t),
                         visiting := visiting st' - {taskId},
                         visited := insert taskId (visited st'),
                         sorted_acc := sorted_acc st' @ [\<lparr>s_task = task, tier = t\<rparr>]\<rparr>))))))"
| "visit_dependencies n taskMap [] maxDepTier st = Some (Inr (maxDepTier, st))"
| "visit_dependencies n taskMap (depId # ds) maxDepTier st =
     (case visit n taskMap depId st of
        None \<Rightarrow> None
      | Some (Inl e) \<Rightarrow> Some (Inl e)
      | Some (Inr (depTier, st')) \<Rightarrow> visit_dependencies n taskMap ds (max maxDepTier depTier) st')"

text \<open>The loop \<open>for (const task of tasks) if (!visited.has(task.id)) visit(task.id)\<close>.\<close>

fun visit_tasks :: "nat \<Rightarrow> (int \<rightharpoonup> TaskMasterTask) \<Rightarrow> TaskMasterTask list \<Rightarrow> sort_state \<Rightarrow> (error + sort_state) option" where
  "visit_tasks n taskMap [] st = Some (Inr st)"
| "visit_tasks n taskMap (task # rest) st =
     (if task_id task \<notin> visited st then
        (case visit n taskMap (task_id task) st of
           None \<Rightarrow> None
         | Some (Inl e) \<Rightarrow> Some (Inl e)
         | Some (Inr (k, st')) \<Rightarrow> visit_tasks n taskMap rest st')
      else visit_tasks n taskMap rest st)"

text \<open>
  The comparator of the final \<open>sort\<close>, and \<open>Array.prototype.sort\<close> as the stable
  sort it is specified to be, by insertion.
\<close>

definition compare_sorted :: "SortedTask \<Rightarrow> SortedTask \<Rightarrow> int" where
  "compare_sorted a b =
     (if tier a \<noteq> tier b then tier a - tier b else task_id (s_task a) - task_id (s_task b))"

fun insert_by :: "('a \<Rightarrow> 'a \<Rightarrow> int) \<Rightarrow> 'a \<Rightarrow> 'a list \<Rightarrow> 'a list" where
  "insert_by cmp x [] = [x]"
| "insert_by cmp x (y # ys) = (if cmp x y \<le> 0 then x # y # ys else y # insert_by cmp x ys)"

definition sort_by :: "('a \<Rightarrow> 'a \<Rightarrow> int) \<Rightarrow> 'a list \<Rightarrow> 'a list" where
  "sort_by cmp xs = foldr (insert_by cmp) xs []"

text \<open>A recursion of depth \<open>length tasks + 1\<close> is allowed; \<open>topologicalSort_returns\<close>
  below shows that no input needs more.\<close>

definition topologicalSort :: "TaskMasterTask list \<Rightarrow> (error + SortedTask list) option" where
  "topologicalSort tasks =
     (case visit_tasks (Suc (length tasks)) (taskMap_of tasks) tasks initial_sort_state of
        None \<Rightarrow> None
      | Some (Inl e) \<Rightarrow> Some (Inl e)
      | Some (Inr st) \<Rightarrow> Some (Inr (sort_by compare_sorted (sorted_acc st))))"

section \<open>Acyclicity check (schemas/taskmaster.ts)\<close>

text \<open>\<open>Array.prototype.indexOf\<close> (\<open>- 1\<close> when absent) and \<open>slice(start)\<close>, which
  counts a negative start from the end.\<close>

fun indexOf :: "int list \<Rightarrow> int \<Rightarrow> int" where
  "indexOf [] x = - 1"
| "indexOf (y # ys) x =
     (if y = x then 0 else (let k = indexOf ys x in if k < 0 then - 1 else k + 1))"

definition slice :: "'a list \<Rightarrow> int \<Rightarrow> 'a list" where
  "slice xs start =
     (if start < 0 then drop (nat (max (int (length xs) + start) 0)) xs else drop (nat start) xs)"

record cycle_state =
  c_visited :: "int set"
  c_visiting :: "int set"
  c_errors :: "message list"

definition initial_cycle_state :: cycle_state where
  "initial_cycle_state = \<lparr>c_visited = {}, c_visiting = {}, c_errors = []\<rparr>"

text \<open>
  The closure \<open>visit\<close> of \<open>validateCircularDependencies\<close> and its loop, with the same
  depth bound as above. It returns a boolean that no caller reads.
\<close>

fun cvisit :: "nat \<Rightarrow> (int \<rightharpoonup> TaskMasterTask) \<Rightarrow> int \<Rightarrow> int list \<Rightarrow> cycle_state \<Rightarrow> (bool \<times> cycle_state) option"
and cvisit_dependencies :: "nat \<Rightarrow> (int \<rightharpoonup> TaskMasterTask) \<Rightarrow> int list \<Rightarrow> int list \<Rightarrow> cycle_state \<Rightarrow> cycle_state option"
where
  "cvisit 0 taskMap taskId path st = None"
| "cvisit (Suc n) taskMap taskId path st =
     (if taskId \<in> c_visited st then Some (False, st)
      else if taskId \<in> c_visiting st then
        (let cycleStart = indexOf path taskId;
             cycle = slice path cycleStart @ [taskId]
         in Some (True, st\<lparr>c_errors := c_errors st @ [Circular_dependency cycle]\<rparr>))
      else
        (let st1 = st\<lparr>c_visiting := insert taskId (c_visiting st)\<rparr> in
         case (case taskMap taskId of
                 None \<Rightarrow> Some st1
               | Some task \<Rightarrow> cvisit_dependencies n taskMap (dependencies task) (path @ [taskId]) st1) of
           None \<Rightarrow> None
         | Some st2 \<Rightarrow>
             Some (False, st2\<lparr>c_visiting := c_visiting st2 - {taskId},
                               c_visited := insert taskId (c_visited st2)\<rparr>)))"
| "cvisit_dependencies n taskMap [] path st = Some st"
| "cvisit_dependencies n taskMap (depId # ds) path st =
     (case cvisit n taskMap depId path st of
        None \<Rightarrow> None
      | Some (b, st') \<Rightarrow> cvisit_dependencies n taskMap ds path st')"

fun cvisit_tasks :: "nat \<Rightarrow> (int \<rightharpoonup> TaskMasterTask) \<Rightarrow> TaskMasterTask list \<Rightarrow> cycle_state \<Rightarrow> cycle_state option" where
  "cvisit_tasks n taskMap [] st = Some st"
| "cvisit_tasks n taskMap (task # rest) st =
     (if task_id task \<notin> c_visited st then
        (case cvisit n taskMap (task_id task) [] st of
           None \<Rightarrow> None
         | Some (b, st') \<Rightarrow> cvisit_tasks n taskMap rest st')
      else cvisit_tasks n taskMap rest st)"

definition validateCircularDependencies :: "TaskMasterTask list \<Rightarrow> ValidationResult option" where
  "validateCircularDependencies tasks =
     (case cvisit_tasks (Suc (length tasks)) (taskMap_of tasks) tasks initial_cycle_state of
        None \<Rightarrow> None
      | Some st \<Rightarrow> Some \<lparr>valid = (length (c_errors st) = 0), errors = c_errors st\<rparr>)"

section \<open>External tracker gateway (the interface of beads/cli.ts)\<close>

record BeadsCreateResult =
  result_id :: string
  result_title :: string

text \<open>One constructor per method of \<open>BeadsCli\<close> that the synchronisation calls.\<close>

datatype cli_call =
    Create_epic string string int
  | Create_child string string string
  | Add_dependency string string
  | Update_status string string
  | Close string

text \<open>
  The external process is a parameter: what it answers to a call, given the calls made
  before it. A rejection is \<open>Inl\<close>; for the methods that return nothing only the
  distinction between \<open>Inl\<close> and \<open>Inr\<close> is used.
\<close>

type_synonym gateway = "cli_call list \<Rightarrow> cli_call \<Rightarrow> error + BeadsCreateResult"

text \<open>What a synchronisation run changes: the mapping store and the calls issued so far.\<close>

record sync_state =
  mapper :: IdMapper
  calls :: "cli_call list"

definition invoke :: "gateway \<Rightarrow> cli_call \<Rightarrow> sync_state \<Rightarrow> (error + BeadsCreateResult) \<times> sync_state" where
  "invoke bd c st = (bd (calls st) c, st\<lparr>calls := calls st @ [c]\<rparr>)"

definition invoke_void :: "gateway \<Rightarrow> cli_call \<Rightarrow> sync_state \<Rightarrow> (error + unit) \<times> sync_state" where
  "invoke_void bd c st =
     (case invoke bd c st of (Inl e, st') \<Rightarrow> (Inl e, st') | (Inr r, st') \<Rightarrow> (Inr (), st'))"

text \<open>JavaScript truthiness of an optional string: neither \<open>undefined\<close> nor empty.\<close>

fun truthy :: "string option \<Rightarrow> bool" where
  "truthy None = False"
| "truthy (Some s) = (s \<noteq> [])"

section \<open>Status synchronisation (sync/status-syncer.ts)\<close>

record status_action =
  act_status :: "string option"
  act_close :: bool

definition statusMap :: "(string \<times> status_action) list" where
  "statusMap =
     [(''pending'', \<lparr>act_status = None, act_close = False\<rparr>),
      (''in-progress'', \<lparr>act_status = Some ''in_progress'', act_close = False\<rparr>),
      (''done'', \<lparr>act_status = None, act_close = True\<rparr>),
      (''deferred'', \<lparr>act_status = Some ''deferred'', act_close = False\<rparr>),
      (''cancelled'', \<lparr>act_status = None, act_close = True\<rparr>),
      (''blocked'', \<lparr>act_status = Some ''blocked'', act_close = False\<rparr>)]"

definition mapStatus :: "string \<Rightarrow> status_action" where
  "mapStatus tmStatus =
     (case map_of statusMap tmStatus of
        Some a \<Rightarrow> a
      | None \<Rightarrow> \<lparr>act_status = None, act_close = False\<rparr>)"

text \<open>The lines shared by \<open>syncEpicStatus\<close> and the loop body of
  \<open>syncSubtaskStatus\<close>: destructure \<open>mapStatus\<close>, close or update or do nothing.\<close>

definition apply_status :: "gateway \<Rightarrow> string \<Rightarrow> string \<Rightarrow> sync_state \<Rightarrow> (error + unit) \<times> sync_state" where
  "apply_status bd tmStatus issueId st =
     (let a = mapStatus tmStatus in
      if act_close a then invoke_void bd (Close issueId) st
      else if truthy (act_status a) then invoke_void bd (Update_status issueId (the (act_status a))) st
      else (Inr (), st))"

definition syncEpicStatus :: "gateway \<Rightarrow> TaskMasterTask \<Rightarrow> sync_state \<Rightarrow> (error + unit) \<times> sync_state" where
  "syncEpicStatus bd task st =
     (let epicId = getEpicId (mapper st) (task_id task) in
      if \<not> truthy epicId then (Inl (Epic_ID_not_found_for_task (task_id task)), st)
      else apply_status bd (status_string (status task)) (the epicId) st)"

text \<open>The \<open>for\<close> loop of \<open>syncSubtaskStatus\<close> over \<open>task.subtasks\<close>.\<close>

fun syncSubtasks :: "gateway \<Rightarrow> TaskMasterTask \<Rightarrow> TaskMasterSubtask list \<Rightarrow> sync_state \<Rightarrow> (error + unit) \<times> sync_state" where
  "syncSubtasks bd task [] st = (Inr (), st)"
| "syncSubtasks bd task (subtask # rest) st =
     (let subtaskId = getSubtaskId (mapper st) (task_id task) (sub_id subtask) in
      if \<not> truthy subtaskId then (Inl (Subtask_ID_not_found (task_id task) (sub_id subtask)), st)
      else (case apply_status bd (status_string (sub_status subtask)) (the subtaskId) st of
              (Inl e, st') \<Rightarrow> (Inl e, st')
            | (Inr u, st') \<Rightarrow> syncSubtasks bd task rest st'))"

definition syncSubtaskStatus :: "gateway \<Rightarrow> TaskMasterTask \<Rightarrow> sync_state \<Rightarrow> (error + unit) \<times> sync_state" where
  "syncSubtaskStatus bd task st =
     (case subtasks task of
        None \<Rightarrow> (Inr (), st)
      | Some subs \<Rightarrow> syncSubtasks bd task subs st)"

fun syncAllStatuses :: "gateway \<Rightarrow> TaskMasterTask list \<Rightarrow> sync_state \<Rightarrow> (error + unit) \<times> sync_state" where
  "syncAllStatuses bd [] st = (Inr (), st)"
| "syncAllStatuses bd (task # rest) st =
     (case syncEpicStatus bd task st of
        (Inl e, st') \<Rightarrow> (Inl e, st')
      | (Inr u, st') \<Rightarrow>
          (case syncSubtaskStatus bd task st' of
             (Inl e, st'') \<Rightarrow> (Inl e, st'')
           | (Inr u', st'') \<Rightarrow> syncAllStatuses bd rest st''))"

section \<open>Creation of epics and children (sync/epic-creator.ts, sync/child-creator.ts)\<close>

fun mapPriority :: "TaskMasterPriority \<Rightarrow> int" where
  "mapPriority High = 0"
| "mapPriority Medium = 1"
| "mapPriority Low = 2"

text \<open>\<open>Array.prototype.join\<close> and the decimal text of an integer in a template.\<close>

fun join :: "string \<Rightarrow> string list \<Rightarrow> string" where
  "join sep [] = []"
| "join sep [p] = p"
| "join sep (p # q # ps) = p @ sep @ join sep (q # ps)"

fun decimal :: "nat \<Rightarrow> string" where
  "decimal n =
     (if n < 10 then [char_of (48 + n)] else decimal (n div 10) @ [char_of (48 + n mod 10)])"

definition number_string :: "int \<Rightarrow> string" where
  "number_string i = (if i < 0 then CHR ''-'' # decimal (nat (- i)) else decimal (nat i))"

definition newline :: string where
  "newline = [CHR 0x0A]"

definition formatEpicDescription :: "TaskMasterTask \<Rightarrow> string" where
  "formatEpicDescription task =
     (let parts = [''## Description'', description task, ''''];
          parts = (if truthy (details task)
                   then parts @ [''## Implementation Details'', the (details task), '''']
                   else parts);
          parts = (if truthy (testStrategy task)
                   then parts @ [''## Test Strategy'', the (testStrategy task), '''']
                   else parts);
          parts = parts @ [''## Metadata''];
          parts = parts @ [''- Task-Master ID: '' @ number_string (task_id task)];
          parts = (if complexity task \<noteq> None \<and> complexity task \<noteq> Some 0
                   then parts @ [''- Complexity: '' @ number_string (the (complexity task)) @ ''/10'']
                   else parts);
          parts = parts @ [''- Original Status: '' @ status_string (status task)]
      in join newline parts)"

definition createEpic :: "gateway \<Rightarrow> TaskMasterTask \<Rightarrow> sync_state \<Rightarrow> (error + string) \<times> sync_state" where
  "createEpic bd task st =
     (let description = formatEpicDescription task;
          priority = mapPriority (priority task)
      in case invoke bd (Create_epic (title task) description priority) st of
           (Inl e, st') \<Rightarrow> (Inl e, st')
         | (Inr result, st') \<Rightarrow>
             (Inr (result_id result),
              st'\<lparr>mapper := addEpic (task_id task) (result_id result) (mapper st')\<rparr>))"

fun createEpics :: "gateway \<Rightarrow> TaskMasterTask list \<Rightarrow> sync_state \<Rightarrow> (error + unit) \<times> sync_state" where
  "createEpics bd [] st = (Inr (), st)"
| "createEpics bd (task # rest) st =
     (case createEpic bd task st of
        (Inl e, st') \<Rightarrow> (Inl e, st')
      | (Inr i, st') \<Rightarrow> createEpics bd rest st')"

definition formatChildDescription :: "TaskMasterSubtask \<Rightarrow> string" where
  "formatChildDescription subtask =
     (let parts = [sub_description subtask];
          parts = (if truthy (sub_details subtask)
                   then parts @ ['''', ''## Implementation Details'', the (sub_details subtask)]
                   else parts)
      in join newline parts)"

text \<open>The loop of \<open>createChildren\<close> over the sorted subtasks.\<close>

fun createChildren_loop :: "gateway \<Rightarrow> TaskMasterTask \<Rightarrow> string \<Rightarrow> TaskMasterSubtask list \<Rightarrow> sync_state \<Rightarrow> (error + unit) \<times> sync_state" where
  "createChildren_loop bd task epicId [] st = (Inr (), st)"
| "createChildren_loop bd task epicId (subtask # rest) st =
     (let description = formatChildDescription subtask
      in case invoke bd (Create_child epicId (sub_title subtask) description) st of
           (Inl e, st') \<Rightarrow> (Inl e, st')
         | (Inr result, st') \<Rightarrow>
             (case addSubtask (task_id task) (sub_id subtask) (result_id result) (mapper st') of
                (Inl e, m') \<Rightarrow> (Inl e, st'\<lparr>mapper := m'\<rparr>)
              | (Inr u, m') \<Rightarrow> createChildren_loop bd task epicId rest (st'\<lparr>mapper := m'\<rparr>)))"

text \<open>\<open>[...task.subtasks].sort((a, b) => a.id - b.id)\<close>: a stable sort by ascending id.\<close>

definition createChildren :: "gateway \<Rightarrow> TaskMasterTask \<Rightarrow> string \<Rightarrow> sync_state \<Rightarrow> (error + unit) \<times> sync_state" where
  "createChildren bd task epicId st =
     (case subtasks task of
        None \<Rightarrow> (Inr (), st)
      | Some subs \<Rightarrow>
          if length subs = 0 then (Inr (), st)
          else createChildren_loop bd task epicId (sort_key sub_id subs) st)"

fun createAllChildren :: "gateway \<Rightarrow> TaskMasterTask list \<Rightarrow> sync_state \<Rightarrow> (error + unit) \<times> sync_state" where
  "createAllChildren bd [] st = (Inr (), st)"
| "createAllChildren bd (task # rest) st =
     (let epicId = getEpicId (mapper st) (task_id task) in
      if \<not> truthy epicId then (Inl (Epic_ID_not_found_for_task (task_id task)), st)
      else (case createChildren bd task (the epicId) st of
              (Inl e, st') \<Rightarrow> (Inl e, st')
            | (Inr u, st') \<Rightarrow> createAllChildren bd rest st'))"

section \<open>Example inputs\<close>

text \<open>The task and subtask builders of the test suites, and a store as a resumed run
  finds it: task 1 already mapped.\<close>

definition mk_task :: "int \<Rightarrow> int list \<Rightarrow> TaskMasterTask" where
  "mk_task i deps =
     \<lparr>task_id = i, title = ''Test task'', description = ''A test task'', status = Pending,
      priority = High, dependencies = deps, complexity = None, subtasks = None,
      details = None, testStrategy = None\<rparr>"

definition mk_subtask :: "int \<Rightarrow> string \<Rightarrow> TaskMasterSubtask" where
  "mk_subtask i t =
     \<lparr>sub_id = i, sub_title = t, sub_description = ''D'', sub_status = Pending,
      sub_dependencies = None, sub_details = None\<rparr>"


definition fresh_gateway :: gateway where
  "fresh_gateway log c = Inr \<lparr>result_id = ''bd-new'', result_title = ''T''\<rparr>"

text \<open>A store with task 1 and its subtasks 1 and 2 mapped, a task that is done with a
  done and an in-progress subtask, and the same task with a third, unmapped subtask.\<close>

definition mapped_state :: sync_state where
  "mapped_state =
     \<lparr>mapper = build_mapper [AddEpic 1 ''bd-1'', AddSubtask 1 1 ''bd-1.1'', AddSubtask 1 2 ''bd-1.2''],
      calls = []\<rparr>"

definition done_task :: TaskMasterTask where
  "done_task =
     (mk_task 1 [])\<lparr>status := Done,
        subtasks := Some [(mk_subtask 1 ''S1'')\<lparr>sub_status := Done\<rparr>,
                          (mk_subtask 2 ''S2'')\<lparr>sub_status := In_progress\<rparr>]\<rparr>"

text \<open>The calls that the status table of \<open>mapStatus\<close> prescribes for a status and a
  destination id, for a task and for a subtask under a given store, and the subtasks of a
  task with \<open>undefined\<close> read as none. They abbreviate the statements below.\<close>

definition status_calls :: "TaskMasterStatus \<Rightarrow> string \<Rightarrow> cli_call list" where
  "status_calls s i =
     (case s of
        Pending \<Rightarrow> []
      | In_progress \<Rightarrow> [Update_status i ''in_progress'']
      | Done \<Rightarrow> [Close i]
      | Deferred \<Rightarrow> [Update_status i ''deferred'']
      | Cancelled \<Rightarrow> [Close i]
      | Blocked \<Rightarrow> [Update_status i ''blocked''])"

definition epic_calls :: "IdMapper \<Rightarrow> TaskMasterTask \<Rightarrow> cli_call list" where
  "epic_calls m task =
     (case getEpicId m (task_id task) of
        None \<Rightarrow> []
      | Some epicId \<Rightarrow> if epicId = [] then [] else status_calls (status task) epicId)"

definition subtask_calls :: "IdMapper \<Rightarrow> TaskMasterTask \<Rightarrow> TaskMasterSubtask \<Rightarrow> cli_call list" where
  "subtask_calls m task subtask =
     (case getSubtaskId m (task_id task) (sub_id subtask) of
        None \<Rightarrow> []
      | Some subtaskId \<Rightarrow>
          if subtaskId = [] then [] else status_calls (sub_status subtask) subtaskId)"

definition subtasks_of :: "TaskMasterTask \<Rightarrow> TaskMasterSubtask list" where
  "subtasks_of task = (case subtasks task of None \<Rightarrow> [] | Some subs \<Rightarrow> subs)"

text \<open>Task sets of the test suite and of the scenarios: a chain given in two orders, a
  self-dependency, a missing reference, and a missing reference next to a cycle.\<close>

definition scenario_A :: "TaskMasterTask list" where
  "scenario_A = [mk_task 1 [], mk_task 2 [1], mk_task 3 [1, 2]]"

definition scenario_A_reordered :: "TaskMasterTask list" where
  "scenario_A_reordered = [mk_task 3 [1, 2], mk_task 1 [], mk_task 2 [1]]"

definition self_dependent :: "TaskMasterTask list" where
  "self_dependent = [mk_task 1 [1]]"

definition scenario_C :: "TaskMasterTask list" where
  "scenario_C = [mk_task 1 [99]]"

definition missing_then_cycle :: "TaskMasterTask list" where
  "missing_then_cycle = [mk_task 1 [99], mk_task 2 [2]]"

definition scenario_B :: "TaskMasterTask list" where
  "scenario_B = [mk_task 1 [3], mk_task 2 [1], mk_task 3 [2]]"

text \<open>A state of the acyclicity check in the middle of a traversal: 1 and 2 are on the
  stack, in this order.\<close>

definition on_stack_1_2 :: cycle_state where
  "on_stack_1_2 = \<lparr>c_visited = {}, c_visiting = {1, 2}, c_errors = []\<rparr>"

section \<open>The task set as the data model describes it\<close>

text \<open>The dependency edges of a task list, referential completeness and the key of the
  output order, stated on the input rather than on the map built from it.\<close>

definition task_edges :: "TaskMasterTask list \<Rightarrow> (int \<times> int) set" where
  "task_edges tasks = {(task_id t, d) |t d. t \<in> set tasks \<and> d \<in> set (dependencies t)}"

definition referentially_complete :: "TaskMasterTask list \<Rightarrow> bool" where
  "referentially_complete tasks =
     (\<forall>t \<in> set tasks. \<forall>d \<in> set (dependencies t). d \<in> task_id ` set tasks)"

definition order_key :: "SortedTask \<Rightarrow> int \<times> int" where
  "order_key s = (tier s, task_id (s_task s))"

text \<open>The dependency edges that end at the id of a task of the list.\<close>

definition existing_edges :: "TaskMasterTask list \<Rightarrow> (int \<times> int) set" where
  "existing_edges tasks = {(i, d). (i, d) \<in> task_edges tasks \<and> d \<in> task_id ` set tasks}"

section \<open>Invariants of the acyclicity check\<close>

text \<open>What a returning call of the check leaves of the state it was given.\<close>

definition keeps :: "cycle_state \<Rightarrow> cycle_state \<Rightarrow> bool" where
  "keeps st st' =
     (c_visiting st' = c_visiting st
      \<and> c_visited st \<subseteq> c_visited st'
      \<and> set (c_errors st) \<subseteq> set (c_errors st')
      \<and> (c_visited st \<inter> c_visiting st = {} \<longrightarrow> c_visited st' \<inter> c_visiting st' = {}))"

text \<open>The argument \<open>path\<close> is the traversal stack: the ids being visited, each once, in
  the order in which they were entered, each a dependency of the one before it.\<close>

definition is_stack :: "(int \<rightharpoonup> TaskMasterTask) \<Rightarrow> int list \<Rightarrow> cycle_state \<Rightarrow> bool" where
  "is_stack tm path st =
     (set path = c_visiting st \<and> distinct path
      \<and> c_visited st \<inter> c_visiting st = {}
      \<and> successively (\<lambda>a b. (a, b) \<in> dep_rel tm) path)"

text \<open>A recorded cycle is a closed walk along dependency edges: it ends where it starts
  and repeats no other id.\<close>

definition closed_walk :: "(int \<rightharpoonup> TaskMasterTask) \<Rightarrow> message \<Rightarrow> bool" where
  "closed_walk tm msg =
     (\<exists>c. msg = Circular_dependency (c @ [hd c]) \<and> c \<noteq> [] \<and> distinct c
          \<and> successively (\<lambda>a b. (a, b) \<in> dep_rel tm) (c @ [hd c]))"

text \<open>Every visited task that lists itself has its cycle on record.\<close>

definition self_recorded :: "(int \<rightharpoonup> TaskMasterTask) \<Rightarrow> cycle_state \<Rightarrow> bool" where
  "self_recorded tm st =
     (\<forall>i task. tm i = Some task \<and> i \<in> set (dependencies task) \<and> i \<in> c_visited st
        \<longrightarrow> Circular_dependency [i, i] \<in> set (c_errors st))"

text \<open>Both together: what the messages recorded so far satisfy.\<close>

definition well_recorded :: "(int \<rightharpoonup> TaskMasterTask) \<Rightarrow> cycle_state \<Rightarrow> bool" where
  "well_recorded tm st = ((\<forall>m \<in> set (c_errors st). closed_walk tm m) \<and> self_recorded tm st)"

section \<open>Invariants of the sort traversal\<close>

text \<open>The map is keyed by the ids of its tasks.\<close>

definition keyed :: "(int \<rightharpoonup> TaskMasterTask) \<Rightarrow> bool" where
  "keyed tm = (\<forall>i t. tm i = Some t \<longrightarrow> task_id t = i)"

definition tier_of :: "sort_state \<Rightarrow> int \<Rightarrow> int" where
  "tier_of st d = the (tierMap st d)"

text \<open>
  What holds of the shared collections between any two calls: the visited ids are those of
  the output so far, each once; every output entry is the map's task under its id, with its
  tier recorded in \<open>tierMap\<close>; its dependencies are visited and its tier is the one the
  data model defines; nothing is both visited and being visited.
\<close>

definition entries_ok :: "(int \<rightharpoonup> TaskMasterTask) \<Rightarrow> sort_state \<Rightarrow> bool" where
  "entries_ok tm st =
     (visited st = (\<lambda>s. task_id (s_task s)) ` set (sorted_acc st)
      \<and> distinct (map (\<lambda>s. task_id (s_task s)) (sorted_acc st))
      \<and> (\<forall>s \<in> set (sorted_acc st).
            tm (task_id (s_task s)) = Some (s_task s)
            \<and> tierMap st (task_id (s_task s)) = Some (tier s)
            \<and> set (dependencies (s_task s)) \<subseteq> visited st
            \<and> 0 \<le> tier s
            \<and> tier s = (if dependencies (s_task s) = [] then 0
                        else 1 + Max (tier_of st ` set (dependencies (s_task s))))))"

definition sort_inv :: "(int \<rightharpoonup> TaskMasterTask) \<Rightarrow> sort_state \<Rightarrow> bool" where
  "sort_inv tm st = (entries_ok tm st \<and> visited st \<inter> visiting st = {})"

text \<open>What a returning call leaves of the state it was given.\<close>

definition extends :: "sort_state \<Rightarrow> sort_state \<Rightarrow> bool" where
  "extends st st' =
     (visiting st' = visiting st
      \<and> visited st \<subseteq> visited st'
      \<and> (\<forall>x \<in> visited st. tierMap st' x = tierMap st x))"

text \<open>A thrown error tells the truth: a cycle error names an id on a cycle, an
  unresolved-reference error names an id with no task that is reachable from one of the
  ids the traversal started from.\<close>

definition error_sound :: "(int \<rightharpoonup> TaskMasterTask) \<Rightarrow> int set \<Rightarrow> error \<Rightarrow> bool" where
  "error_sound tm from e =
     ((\<exists>i. e = Circular_dependency_detected i \<and> (i, i) \<in> (dep_rel tm)\<^sup>+)
      \<or> (\<exists>i. e = Task_referenced_but_not_found i \<and> i \<notin> dom tm
              \<and> (\<exists>t \<in> from. (t, i) \<in> (dep_rel tm)\<^sup>*)))"

section \<open>Properties of the mapping store\<close>

lemma those_list_map_Some:
  "(\<And>x. x \<in> set xs \<Longrightarrow> f (g x) = Some x) \<Longrightarrow> those_list (map (\<lambda>x. f (g x)) xs) = Some xs"
  by (induction xs) auto

lemma read_subtask_json: "read_subtask (subtask_json s) = Some s"
  by (simp add: read_subtask_def subtask_json_def)

lemma read_task_json: "read_task (task_json t) = Some t"
proof -
  have "those_list (map (\<lambda>s. read_subtask (subtask_json s)) (mapped_subtasks t))
          = Some (mapped_subtasks t)"
    by (rule those_list_map_Some) (simp add: read_subtask_json)
  then show ?thesis
    by (simp add: read_task_def task_json_def comp_def)
qed

lemma load_save: "load p (save now p m fs) = Inr m"
proof -
  have "those_list (map (\<lambda>t. read_task (task_json t)) (mapper_tasks m)) = Some (mapper_tasks m)"
    by (rule those_list_map_Some) (simp add: read_task_json)
  then show ?thesis
    by (simp add: load_def save_def mapping_file_def comp_def)
qed

text \<open>
  C4. Round trip of the mapping store: for a store built by any sequence of
  \<open>addEpic\<close> and \<open>addSubtask\<close> calls, loading the file that \<open>save\<close> wrote succeeds
  and gives a store on which \<open>getEpicId\<close> and \<open>getSubtaskId\<close> answer as on the
  original, for every identifier (present or not), whatever the path, the time stamp and
  the prior content of the file system.
\<close>

theorem mapping_store_round_trip:
  "\<exists>m'. load p (save now p (build_mapper ops) fs) = Inr m'
       \<and> getEpicId m' = getEpicId (build_mapper ops)
       \<and> getSubtaskId m' = getSubtaskId (build_mapper ops)"
  by (simp add: load_save)

theorem mapping_store_round_trip_witness:
  "\<exists>m'. load ''map.json''
          (save ''2026-01-01T00:00:00.000Z'' ''map.json''
             (build_mapper [AddEpic 1 ''X-1'', AddSubtask 1 1 ''X-1.1'']) Map.empty) = Inr m'
       \<and> getEpicId m' 1 = Some ''X-1''
       \<and> getSubtaskId m' 1 1 = Some ''X-1.1''"
proof -
  have e: "getEpicId (build_mapper [AddEpic 1 ''X-1'', AddSubtask 1 1 ''X-1.1'']) 1 = Some ''X-1''"
    by (simp add: build_mapper_def new_IdMapper_def addEpic_def addSubtask_def getEpicId_def)
  have c: "getSubtaskId (build_mapper [AddEpic 1 ''X-1'', AddSubtask 1 1 ''X-1.1'']) 1 1 = Some ''X-1.1''"
    by (simp add: build_mapper_def new_IdMapper_def addEpic_def addSubtask_def getSubtaskId_def)
  from mapping_store_round_trip
         [of "''map.json''" "''2026-01-01T00:00:00.000Z''"
             "[AddEpic 1 ''X-1'', AddSubtask 1 1 ''X-1.1'']" Map.empty]
  show ?thesis
    using e c by auto
qed

text \<open>
  C8. \<open>addSubtask\<close> for a parent id that has no entry in the store throws the
  "not found" error and leaves the store as it was, so that every later lookup answers as
  before the call.
\<close>

theorem addSubtask_unregistered_parent:
  assumes "p \<notin> tmId ` set (mapper_tasks m)"
  shows "addSubtask p s b m = (Inl (Task_not_found_in_mapping p), m)"
proof -
  have "find (\<lambda>t. tmId t = p) (mapper_tasks m) = None"
    using assms by (auto simp: find_None_iff)
  then show ?thesis
    by (simp add: addSubtask_def)
qed

theorem addSubtask_unregistered_parent_witness:
  "addSubtask 99 1 ''bd-x.1'' (addEpic 1 ''bd-abc'' new_IdMapper)
     = (Inl (Task_not_found_in_mapping 99), addEpic 1 ''bd-abc'' new_IdMapper)"
  by (rule addSubtask_unregistered_parent) (simp add: addEpic_def new_IdMapper_def)

section \<open>Referential integrity reports\<close>

lemma check_dependencies_eq:
  "check_dependencies V tid ds errs
     = errs @ map (Depends_on_non_existent tid) (filter (\<lambda>d. d \<notin> V) ds)"
  by (induction ds arbitrary: errs) auto

lemma check_tasks_eq:
  "check_tasks V ts errs
     = errs @ concat (map (\<lambda>t. map (Depends_on_non_existent (task_id t))
                                  (filter (\<lambda>d. d \<notin> V) (dependencies t))) ts)"
  by (induction ts arbitrary: errs) (auto simp: check_dependencies_eq)

text \<open>
  C6. \<open>validateDependencyIds\<close> returns, in traversal order, one message for every
  task and every entry of its dependency list whose id is not the id of a task of the
  input (an id listed twice by a task is two references), each naming the task and the
  missing id; nothing stops the pass early. \<open>valid\<close> holds exactly when there is
  no message. The function only reads its input: the result is the only thing it returns.
\<close>

theorem validateDependencyIds_reports_all:
  "errors (validateDependencyIds tasks)
     = concat (map (\<lambda>t. map (Depends_on_non_existent (task_id t))
                           (filter (\<lambda>d. d \<notin> task_id ` set tasks) (dependencies t))) tasks)
   \<and> valid (validateDependencyIds tasks) = (errors (validateDependencyIds tasks) = [])"
  by (simp add: validateDependencyIds_def Let_def check_tasks_eq)

theorem validateDependencyIds_reports_all_witness:
  "errors (validateDependencyIds [mk_task 1 [99, 2], mk_task 2 [1, 7]])
     = [Depends_on_non_existent 1 99, Depends_on_non_existent 2 7]
   \<and> valid (validateDependencyIds [mk_task 1 [99, 2], mk_task 2 [1, 7]]) = False"
  using validateDependencyIds_reports_all [of "[mk_task 1 [99, 2], mk_task 2 [1, 7]]"]
  by (simp add: mk_task_def)

section \<open>Status actions\<close>

lemma apply_status_calls:
  "calls (snd (apply_status bd (status_string s) i st)) = calls st @ status_calls s i"
  by (cases s)
     (simp_all add: apply_status_def mapStatus_def statusMap_def invoke_void_def invoke_def
        status_calls_def split: sum.splits)

lemma apply_status_mapper: "mapper (snd (apply_status bd s i st)) = mapper st"
  by (simp add: apply_status_def invoke_void_def invoke_def Let_def split: sum.splits)

lemma apply_status_accepted:
  assumes "\<forall>log c. \<exists>r. bd log c = Inr r"
  shows "fst (apply_status bd s i st) = Inr ()"
proof -
  have "fst (invoke_void bd c st) = Inr ()" for c
  proof -
    from assms obtain r where "bd (calls st) c = Inr r" by blast
    then show ?thesis by (simp add: invoke_void_def invoke_def)
  qed
  then show ?thesis by (simp add: apply_status_def Let_def)
qed

lemma apply_status_error:
  assumes "fst (apply_status bd s i st) = Inl e"
  shows "\<exists>log c. bd log c = Inl e"
  using assms
  by (auto simp: apply_status_def invoke_void_def invoke_def Let_def split: sum.splits if_splits)

lemma syncEpicStatus_calls:
  "calls (snd (syncEpicStatus bd task st)) = calls st @ epic_calls (mapper st) task"
  by (cases "getEpicId (mapper st) (task_id task)")
     (simp_all add: syncEpicStatus_def epic_calls_def apply_status_calls)

lemma syncEpicStatus_mapper: "mapper (snd (syncEpicStatus bd task st)) = mapper st"
  by (simp add: syncEpicStatus_def Let_def apply_status_mapper)

lemma syncEpicStatus_accepted:
  assumes "\<forall>log c. \<exists>r. bd log c = Inr r" "truthy (getEpicId (mapper st) (task_id task))"
  shows "fst (syncEpicStatus bd task st) = Inr ()"
  using assms by (simp add: syncEpicStatus_def Let_def apply_status_accepted)

text \<open>One turn of the loop: a subtask without destination id stops it before any call, a
  rejected call stops it after the call, otherwise the loop goes on from the new state.\<close>

lemma syncSubtasks_step:
  "syncSubtasks bd task (s # rest) st =
     (if \<not> truthy (getSubtaskId (mapper st) (task_id task) (sub_id s))
      then (Inl (Subtask_ID_not_found (task_id task) (sub_id s)), st)
      else (case fst (apply_status bd (status_string (sub_status s))
                        (the (getSubtaskId (mapper st) (task_id task) (sub_id s))) st) of
              Inl e \<Rightarrow> (Inl e, snd (apply_status bd (status_string (sub_status s))
                        (the (getSubtaskId (mapper st) (task_id task) (sub_id s))) st))
            | Inr u \<Rightarrow> syncSubtasks bd task rest
                        (snd (apply_status bd (status_string (sub_status s))
                        (the (getSubtaskId (mapper st) (task_id task) (sub_id s))) st))))"
  by (simp add: Let_def split: prod.splits sum.splits)

lemma subtask_step_calls:
  assumes "truthy (getSubtaskId (mapper st) (task_id task) (sub_id s))"
  shows "calls (snd (apply_status bd (status_string (sub_status s))
                      (the (getSubtaskId (mapper st) (task_id task) (sub_id s))) st))
           = calls st @ subtask_calls (mapper st) task s"
  using assms
  by (cases "getSubtaskId (mapper st) (task_id task) (sub_id s)")
     (simp_all add: subtask_calls_def apply_status_calls)

lemma subtask_calls_unmapped:
  assumes "\<not> truthy (getSubtaskId m (task_id task) (sub_id s))"
  shows "subtask_calls m task s = []"
  using assms by (cases "getSubtaskId m (task_id task) (sub_id s)") (simp_all add: subtask_calls_def)

lemma syncSubtasks_mapper: "mapper (snd (syncSubtasks bd task subs st)) = mapper st"
proof (induction subs arbitrary: st)
  case Nil
  then show ?case by simp
next
  case (Cons s subs)
  show ?case
    unfolding syncSubtasks_step
    by (simp add: Cons.IH apply_status_mapper split: sum.splits)
qed

lemma syncSubtasks_prefix:
  "\<exists>j \<le> length subs. calls (snd (syncSubtasks bd task subs st))
       = calls st @ concat (map (subtask_calls (mapper st) task) (take j subs))"
proof (induction subs arbitrary: st)
  case Nil
  then show ?case by simp
next
  case (Cons s subs)
  let ?i = "the (getSubtaskId (mapper st) (task_id task) (sub_id s))"
  let ?r = "apply_status bd (status_string (sub_status s)) ?i st"
  show ?case
  proof (cases "truthy (getSubtaskId (mapper st) (task_id task) (sub_id s))")
    case False
    then have "calls (snd (syncSubtasks bd task (s # subs) st))
                 = calls st @ concat (map (subtask_calls (mapper st) task) (take 0 (s # subs)))"
      unfolding syncSubtasks_step by simp
    then show ?thesis by blast
  next
    case True
    note c = subtask_step_calls [OF True, of bd]
    show ?thesis
    proof (cases "fst ?r")
      case (Inl e)
      with True c have "calls (snd (syncSubtasks bd task (s # subs) st))
                 = calls st @ concat (map (subtask_calls (mapper st) task) (take 1 (s # subs)))"
        unfolding syncSubtasks_step by simp
      moreover have "1 \<le> length (s # subs)" by simp
      ultimately show ?thesis by blast
    next
      case (Inr u)
      from Cons.IH [of "snd ?r"] obtain j where j: "j \<le> length subs"
        "calls (snd (syncSubtasks bd task subs (snd ?r)))
           = calls (snd ?r) @ concat (map (subtask_calls (mapper (snd ?r)) task) (take j subs))"
        by blast
      with True Inr c have "calls (snd (syncSubtasks bd task (s # subs) st))
                 = calls st @ concat (map (subtask_calls (mapper st) task) (take (Suc j) (s # subs)))"
        unfolding syncSubtasks_step by (simp add: apply_status_mapper)
      moreover have "Suc j \<le> length (s # subs)" using j(1) by simp
      ultimately show ?thesis by blast
    qed
  qed
qed

lemma syncSubtasks_success:
  "fst (syncSubtasks bd task subs st) = Inr ()
   \<Longrightarrow> calls (snd (syncSubtasks bd task subs st))
        = calls st @ concat (map (subtask_calls (mapper st) task) subs)"
proof (induction subs arbitrary: st)
  case Nil
  then show ?case by simp
next
  case (Cons s subs)
  let ?i = "the (getSubtaskId (mapper st) (task_id task) (sub_id s))"
  let ?r = "apply_status bd (status_string (sub_status s)) ?i st"
  from Cons.prems have t: "truthy (getSubtaskId (mapper st) (task_id task) (sub_id s))"
    unfolding syncSubtasks_step by (auto split: if_splits)
  from Cons.prems t obtain u where u: "fst ?r = Inr u"
    and rest: "fst (syncSubtasks bd task subs (snd ?r)) = Inr ()"
    unfolding syncSubtasks_step by (auto split: sum.splits)
  from Cons.IH [OF rest] subtask_step_calls [OF t, of bd] t u show ?case
    unfolding syncSubtasks_step by (simp add: apply_status_mapper)
qed

lemma syncSubtasks_accepted:
  assumes ok: "\<forall>log c. \<exists>r. bd log c = Inr r"
  shows "\<forall>s \<in> set subs. truthy (getSubtaskId (mapper st) (task_id task) (sub_id s))
         \<Longrightarrow> fst (syncSubtasks bd task subs st) = Inr ()"
proof (induction subs arbitrary: st)
  case Nil
  then show ?case by simp
next
  case (Cons s subs)
  let ?i = "the (getSubtaskId (mapper st) (task_id task) (sub_id s))"
  let ?r = "apply_status bd (status_string (sub_status s)) ?i st"
  have "fst ?r = Inr ()" using ok by (rule apply_status_accepted)
  moreover have "fst (syncSubtasks bd task subs (snd ?r)) = Inr ()"
    using Cons.prems by (intro Cons.IH) (simp add: apply_status_mapper)
  ultimately show ?case
    unfolding syncSubtasks_step using Cons.prems by simp
qed

lemma syncSubtasks_error:
  "fst (syncSubtasks bd task subs st) = Inl e
   \<Longrightarrow> (\<exists>s \<in> set subs. e = Subtask_ID_not_found (task_id task) (sub_id s)
                \<and> \<not> truthy (getSubtaskId (mapper st) (task_id task) (sub_id s)))
       \<or> (\<exists>log c. bd log c = Inl e)"
proof (induction subs arbitrary: st)
  case Nil
  then show ?case by simp
next
  case (Cons s subs)
  let ?i = "the (getSubtaskId (mapper st) (task_id task) (sub_id s))"
  let ?r = "apply_status bd (status_string (sub_status s)) ?i st"
  show ?case
  proof (cases "truthy (getSubtaskId (mapper st) (task_id task) (sub_id s))")
    case False
    with Cons.prems show ?thesis unfolding syncSubtasks_step by auto
  next
    case True
    show ?thesis
    proof (cases "fst ?r")
      case (Inl e')
      with True Cons.prems have "fst ?r = Inl e" unfolding syncSubtasks_step by simp
      then show ?thesis using apply_status_error by blast
    next
      case (Inr u)
      with True Cons.prems have "fst (syncSubtasks bd task subs (snd ?r)) = Inl e"
        unfolding syncSubtasks_step by simp
      from Cons.IH [OF this] show ?thesis by (auto simp: apply_status_mapper)
    qed
  qed
qed

lemma syncSubtaskStatus_eq: "syncSubtaskStatus bd task st = syncSubtasks bd task (subtasks_of task) st"
  by (simp add: syncSubtaskStatus_def subtasks_of_def split: option.splits)

lemma syncAllStatuses_success:
  "fst (syncAllStatuses bd tasks st) = Inr ()
   \<Longrightarrow> calls (snd (syncAllStatuses bd tasks st))
        = calls st @ concat (map (\<lambda>t. epic_calls (mapper st) t
                                     @ concat (map (subtask_calls (mapper st) t) (subtasks_of t))) tasks)"
proof (induction tasks arbitrary: st)
  case Nil
  then show ?case by simp
next
  case (Cons t tasks)
  let ?e = "syncEpicStatus bd t st"
  let ?s = "syncSubtaskStatus bd t (snd ?e)"
  from Cons.prems have a: "fst ?e = Inr ()" "fst ?s = Inr ()"
      "fst (syncAllStatuses bd tasks (snd ?s)) = Inr ()"
    by (auto split: prod.splits sum.splits)
  have m1: "mapper (snd ?e) = mapper st" by (rule syncEpicStatus_mapper)
  have m2: "mapper (snd ?s) = mapper st"
    by (simp add: syncSubtaskStatus_eq syncSubtasks_mapper m1)
  have c1: "calls (snd ?e) = calls st @ epic_calls (mapper st) t"
    by (rule syncEpicStatus_calls)
  have c2: "calls (snd ?s) = calls (snd ?e) @ concat (map (subtask_calls (mapper st) t) (subtasks_of t))"
    using a(2) syncSubtasks_success [of bd t "subtasks_of t" "snd ?e"]
    by (simp add: syncSubtaskStatus_eq m1)
  have "syncAllStatuses bd (t # tasks) st = syncAllStatuses bd tasks (snd ?s)"
    using a(1,2) by (auto split: prod.splits sum.splits)
  with Cons.IH [OF a(3)] c1 c2 m2 show ?case by simp
qed

lemma syncAllStatuses_accepted:
  assumes ok: "\<forall>log c. \<exists>r. bd log c = Inr r"
  shows "\<forall>t \<in> set tasks. truthy (getEpicId (mapper st) (task_id t))
            \<and> (\<forall>s \<in> set (subtasks_of t). truthy (getSubtaskId (mapper st) (task_id t) (sub_id s)))
         \<Longrightarrow> fst (syncAllStatuses bd tasks st) = Inr ()"
proof (induction tasks arbitrary: st)
  case Nil
  then show ?case by simp
next
  case (Cons t tasks)
  let ?e = "syncEpicStatus bd t st"
  let ?s = "syncSubtaskStatus bd t (snd ?e)"
  have m1: "mapper (snd ?e) = mapper st" by (rule syncEpicStatus_mapper)
  have m2: "mapper (snd ?s) = mapper st"
    by (simp add: syncSubtaskStatus_eq syncSubtasks_mapper m1)
  have e: "fst ?e = Inr ()"
    using ok Cons.prems by (intro syncEpicStatus_accepted) simp_all
  have s: "fst ?s = Inr ()"
    unfolding syncSubtaskStatus_eq
    using ok Cons.prems by (intro syncSubtasks_accepted) (simp_all add: m1)
  have "fst (syncAllStatuses bd tasks (snd ?s)) = Inr ()"
    using Cons.prems by (intro Cons.IH) (simp add: m2)
  moreover have "syncAllStatuses bd (t # tasks) st = syncAllStatuses bd tasks (snd ?s)"
    using e s by (auto split: prod.splits sum.splits)
  ultimately show ?case by simp
qed


lemma status_sync_calls:
  "calls (snd (syncEpicStatus bd task st)) = calls st @ epic_calls (mapper st) task
   \<and> (\<exists>j \<le> length (subtasks_of task). calls (snd (syncSubtaskStatus bd task st))
       = calls st @ concat (map (subtask_calls (mapper st) task) (take j (subtasks_of task))))
   \<and> (fst (syncSubtaskStatus bd task st) = Inr ()
     \<longrightarrow> calls (snd (syncSubtaskStatus bd task st))
          = calls st @ concat (map (subtask_calls (mapper st) task) (subtasks_of task)))
   \<and> ((\<forall>log c. \<exists>r. bd log c = Inr r)
      \<and> (\<forall>s \<in> set (subtasks_of task). truthy (getSubtaskId (mapper st) (task_id task) (sub_id s)))
     \<longrightarrow> fst (syncSubtaskStatus bd task st) = Inr ())
   \<and> (\<forall>e. fst (syncSubtaskStatus bd task st) = Inl e
     \<longrightarrow> (\<exists>s \<in> set (subtasks_of task). e = Subtask_ID_not_found (task_id task) (sub_id s)
                \<and> \<not> truthy (getSubtaskId (mapper st) (task_id task) (sub_id s)))
         \<or> (\<exists>log c. bd log c = Inl e))
   \<and> (fst (syncAllStatuses bd tasks st) = Inr ()
     \<longrightarrow> calls (snd (syncAllStatuses bd tasks st))
          = calls st @ concat (map (\<lambda>t. epic_calls (mapper st) t
                                     @ concat (map (subtask_calls (mapper st) t) (subtasks_of t))) tasks))
   \<and> ((\<forall>log c. \<exists>r. bd log c = Inr r)
      \<and> (\<forall>t \<in> set tasks. truthy (getEpicId (mapper st) (task_id t))
            \<and> (\<forall>s \<in> set (subtasks_of t). truthy (getSubtaskId (mapper st) (task_id t) (sub_id s))))
     \<longrightarrow> fst (syncAllStatuses bd tasks st) = Inr ())"
proof (intro conjI impI allI)
  show "calls (snd (syncEpicStatus bd task st)) = calls st @ epic_calls (mapper st) task"
    by (rule syncEpicStatus_calls)
  show "\<exists>j \<le> length (subtasks_of task). calls (snd (syncSubtaskStatus bd task st))
       = calls st @ concat (map (subtask_calls (mapper st) task) (take j (subtasks_of task)))"
    unfolding syncSubtaskStatus_eq by (rule syncSubtasks_prefix)
  show "calls (snd (syncSubtaskStatus bd task st))
          = calls st @ concat (map (subtask_calls (mapper st) task) (subtasks_of task))"
    if "fst (syncSubtaskStatus bd task st) = Inr ()"
    using that unfolding syncSubtaskStatus_eq by (rule syncSubtasks_success)
  show "fst (syncSubtaskStatus bd task st) = Inr ()"
    if "(\<forall>log c. \<exists>r. bd log c = Inr r)
      \<and> (\<forall>s \<in> set (subtasks_of task). truthy (getSubtaskId (mapper st) (task_id task) (sub_id s)))"
    unfolding syncSubtaskStatus_eq
    using that by (intro syncSubtasks_accepted) simp_all
  show "(\<exists>s \<in> set (subtasks_of task). e = Subtask_ID_not_found (task_id task) (sub_id s)
                \<and> \<not> truthy (getSubtaskId (mapper st) (task_id task) (sub_id s)))
         \<or> (\<exists>log c. bd log c = Inl e)"
    if "fst (syncSubtaskStatus bd task st) = Inl e" for e
    using that unfolding syncSubtaskStatus_eq by (rule syncSubtasks_error)
  show "calls (snd (syncAllStatuses bd tasks st))
          = calls st @ concat (map (\<lambda>t. epic_calls (mapper st) t
                                     @ concat (map (subtask_calls (mapper st) t) (subtasks_of t))) tasks)"
    if "fst (syncAllStatuses bd tasks st) = Inr ()"
    using that by (rule syncAllStatuses_success)
  show "fst (syncAllStatuses bd tasks st) = Inr ()"
    if "(\<forall>log c. \<exists>r. bd log c = Inr r)
      \<and> (\<forall>t \<in> set tasks. truthy (getEpicId (mapper st) (task_id t))
            \<and> (\<forall>s \<in> set (subtasks_of t). truthy (getSubtaskId (mapper st) (task_id t) (sub_id s))))"
    using that by (intro syncAllStatuses_accepted) simp_all
qed

text \<open>
  C5. Status synchronisation issues one destination call or none for every task and for
  every subtask: \<open>done\<close> and \<open>cancelled\<close> give a close call alone,
  \<open>in-progress\<close>, \<open>deferred\<close> and \<open>blocked\<close> give one status update to
  \<open>in_progress\<close>, \<open>deferred\<close> and \<open>blocked\<close>, \<open>pending\<close> gives no call; an
  entity with no (or an empty) destination id gets no call. \<open>syncEpicStatus\<close> issues
  the call of its task. \<open>syncSubtaskStatus\<close> issues the calls of the subtasks in their
  order: all of them when it returns, those of a leading part of the subtasks when it
  throws; it returns when every subtask has a destination id and the gateway accepts every
  call, and it throws only the missing-id error of a subtask without destination id or an
  error of the gateway. \<open>syncAllStatuses\<close>, when it returns, has issued for every task
  in order the call of the task and then those of its subtasks.
\<close>

theorem status_sync_one_action_or_none:
  "(let action = (\<lambda>s i. case s of
                     Pending \<Rightarrow> []
                   | In_progress \<Rightarrow> [Update_status i ''in_progress'']
                   | Done \<Rightarrow> [Close i]
                   | Deferred \<Rightarrow> [Update_status i ''deferred'']
                   | Cancelled \<Rightarrow> [Close i]
                   | Blocked \<Rightarrow> [Update_status i ''blocked'']);
        epic_action = (\<lambda>task. case getEpicId (mapper st) (task_id task) of
                         None \<Rightarrow> []
                       | Some epicId \<Rightarrow> if epicId = [] then [] else action (status task) epicId);
        subtask_action = (\<lambda>task subtask.
                       case getSubtaskId (mapper st) (task_id task) (sub_id subtask) of
                         None \<Rightarrow> []
                       | Some subtaskId \<Rightarrow>
                           if subtaskId = [] then [] else action (sub_status subtask) subtaskId);
        subs = (\<lambda>task. case subtasks task of None \<Rightarrow> [] | Some ss \<Rightarrow> ss);
        accepts = (\<forall>log c. \<exists>r. bd log c = Inr r)
    in calls (snd (syncEpicStatus bd task st)) = calls st @ epic_action task
     \<and> (\<exists>j \<le> length (subs task). calls (snd (syncSubtaskStatus bd task st))
            = calls st @ concat (map (subtask_action task) (take j (subs task))))
     \<and> (fst (syncSubtaskStatus bd task st) = Inr ()
          \<longrightarrow> calls (snd (syncSubtaskStatus bd task st))
               = calls st @ concat (map (subtask_action task) (subs task)))
     \<and> (accepts
          \<and> (\<forall>s \<in> set (subs task). truthy (getSubtaskId (mapper st) (task_id task) (sub_id s)))
          \<longrightarrow> fst (syncSubtaskStatus bd task st) = Inr ())
     \<and> (\<forall>e. fst (syncSubtaskStatus bd task st) = Inl e
          \<longrightarrow> (\<exists>s \<in> set (subs task). e = Subtask_ID_not_found (task_id task) (sub_id s)
                     \<and> \<not> truthy (getSubtaskId (mapper st) (task_id task) (sub_id s)))
              \<or> (\<exists>log c. bd log c = Inl e))
     \<and> (fst (syncAllStatuses bd tasks st) = Inr ()
          \<longrightarrow> calls (snd (syncAllStatuses bd tasks st))
               = calls st @ concat (map (\<lambda>t. epic_action t @ concat (map (subtask_action t) (subs t))) tasks))
     \<and> (accepts
          \<and> (\<forall>t \<in> set tasks. truthy (getEpicId (mapper st) (task_id t))
                 \<and> (\<forall>s \<in> set (subs t). truthy (getSubtaskId (mapper st) (task_id t) (sub_id s))))
          \<longrightarrow> fst (syncAllStatuses bd tasks st) = Inr ()))"
  unfolding Let_def
  by (rule status_sync_calls [of bd task st tasks,
          unfolded epic_calls_def [abs_def] subtask_calls_def [abs_def]
                   status_calls_def [abs_def] subtasks_of_def [abs_def]])


theorem status_sync_one_action_or_none_witness:
  "(\<forall>log c. \<exists>r. fresh_gateway log c = Inr r)
   \<and> truthy (getEpicId (mapper mapped_state) 1)
   \<and> truthy (getSubtaskId (mapper mapped_state) 1 1)
   \<and> truthy (getSubtaskId (mapper mapped_state) 1 2)
   \<and> calls (snd (syncEpicStatus fresh_gateway done_task mapped_state)) = [Close ''bd-1'']
   \<and> calls (snd (syncEpicStatus fresh_gateway (mk_task 1 []) mapped_state)) = []
   \<and> fst (syncSubtaskStatus fresh_gateway done_task mapped_state) = Inr ()
   \<and> calls (snd (syncSubtaskStatus fresh_gateway done_task mapped_state))
       = [Close ''bd-1.1'', Update_status ''bd-1.2'' ''in_progress'']
   \<and> fst (syncAllStatuses fresh_gateway [done_task] mapped_state) = Inr ()
   \<and> calls (snd (syncAllStatuses fresh_gateway [done_task] mapped_state))
       = [Close ''bd-1'', Close ''bd-1.1'', Update_status ''bd-1.2'' ''in_progress'']"
proof -
  have acc: "\<forall>log c. \<exists>r. fresh_gateway log c = Inr r"
    by (simp add: fresh_gateway_def)
  have ids: "getEpicId (mapper mapped_state) 1 = Some ''bd-1''"
      "getSubtaskId (mapper mapped_state) 1 1 = Some ''bd-1.1''"
      "getSubtaskId (mapper mapped_state) 1 2 = Some ''bd-1.2''"
    by (simp_all add: mapped_state_def build_mapper_def new_IdMapper_def addEpic_def
          addSubtask_def getEpicId_def getSubtaskId_def)
  have t: "task_id done_task = 1" "status done_task = Done"
      "subtasks done_task = Some [(mk_subtask 1 ''S1'')\<lparr>sub_status := Done\<rparr>,
                                  (mk_subtask 2 ''S2'')\<lparr>sub_status := In_progress\<rparr>]"
      "task_id (mk_task 1 []) = 1" "status (mk_task 1 []) = Pending"
    by (simp_all add: done_task_def mk_task_def)
  have s: "sub_id (mk_subtask i n) = i" for i n
    by (simp add: mk_subtask_def)
  have c: "calls mapped_state = []" by (simp add: mapped_state_def)
  note T = status_sync_one_action_or_none
             [where bd = fresh_gateway and task = done_task and st = mapped_state
                and tasks = "[done_task]", unfolded Let_def]
  note P = status_sync_one_action_or_none
             [where bd = fresh_gateway and task = "mk_task 1 []" and st = mapped_state
                and tasks = "[]", unfolded Let_def]
  have e1: "calls (snd (syncEpicStatus fresh_gateway done_task mapped_state)) = [Close ''bd-1'']"
    using T by (simp add: ids t c)
  have e2: "calls (snd (syncEpicStatus fresh_gateway (mk_task 1 []) mapped_state)) = []"
    using P by (simp add: ids t c)
  have s1: "fst (syncSubtaskStatus fresh_gateway done_task mapped_state) = Inr ()"
    using T acc by (simp add: ids t s)
  have s2: "calls (snd (syncSubtaskStatus fresh_gateway done_task mapped_state))
       = [Close ''bd-1.1'', Update_status ''bd-1.2'' ''in_progress'']"
    using T s1 by (simp add: ids t s c)
  have a1: "fst (syncAllStatuses fresh_gateway [done_task] mapped_state) = Inr ()"
    using T acc by (simp add: ids t s)
  have a2: "calls (snd (syncAllStatuses fresh_gateway [done_task] mapped_state))
       = [Close ''bd-1'', Close ''bd-1.1'', Update_status ''bd-1.2'' ''in_progress'']"
    using T a1 by (simp add: ids t s c)
  from acc ids e1 e2 s1 s2 a1 a2 show ?thesis by simp
qed

section \<open>Creation and the mapping store\<close>











section \<open>The sort traversal keeps its invariant\<close>

lemma extends_refl: "extends st st"
  by (simp add: extends_def)

lemma extends_trans: "extends a b \<Longrightarrow> extends b c \<Longrightarrow> extends a c"
  by (auto simp: extends_def)

lemma tier_of_visiting [simp]: "tier_of (st\<lparr>visiting := v\<rparr>) = tier_of st"
  by (rule ext) (simp add: tier_of_def)

lemma entries_ok_visiting [simp]: "entries_ok tm (st\<lparr>visiting := v\<rparr>) = entries_ok tm st"
  by (simp add: entries_ok_def)

lemma sort_inv_tier:
  assumes "sort_inv tm st" "x \<in> visited st"
  shows "\<exists>k. tierMap st x = Some k \<and> 0 \<le> k"
proof -
  from assms obtain s where "s \<in> set (sorted_acc st)" "x = task_id (s_task s)"
    unfolding sort_inv_def entries_ok_def by blast
  with assms(1) show ?thesis
    unfolding sort_inv_def entries_ok_def by blast
qed

lemma sort_inv_visiting:
  assumes "sort_inv tm st" "t \<notin> visited st"
  shows "sort_inv tm (st\<lparr>visiting := insert t (visiting st)\<rparr>)"
  using assms by (simp add: sort_inv_def)

lemma Max_insert_floor:
  assumes "finite S" "S \<noteq> {}" "\<forall>x\<in>S. (0::int) \<le> x"
  shows "Max (insert (- 1) S) = Max S"
proof -
  have "Max (insert (- 1) S) = max (- 1) (Max S)"
    using assms by simp
  moreover have "0 \<le> Max S"
    using assms by (meson Max_in)
  ultimately show ?thesis by simp
qed

lemma Max_insert_ge: "finite S \<Longrightarrow> (m::int) \<le> Max (insert m S)"
  by simp

text \<open>Finishing a task: the state after the loop, with the four updates.\<close>

lemma sort_inv_finish:
  assumes inv: "sort_inv tm st2" and key: "keyed tm"
    and t: "tm t = Some task" "t \<in> visiting st2"
    and deps: "set (dependencies task) \<subseteq> visited st2"
    and m: "m = Max (insert (- 1) (tier_of st2 ` set (dependencies task)))"
  shows "sort_inv tm
           (st2\<lparr>tierMap := (tierMap st2)(t \<mapsto> m + 1),
                visiting := visiting st2 - {t},
                visited := insert t (visited st2),
                sorted_acc := sorted_acc st2 @ [\<lparr>s_task = task, tier = m + 1\<rparr>]\<rparr>)"
    (is "sort_inv tm ?st'")
proof -
  have tid: "task_id task = t"
    using key t(1) by (simp add: keyed_def)
  have fresh: "t \<notin> visited st2"
    using inv t(2) unfolding sort_inv_def by blast
  have tdeps: "t \<notin> set (dependencies task)"
    using deps fresh by auto
  have same: "tier_of ?st' d = tier_of st2 d" if "d \<noteq> t" for d
    using that by (simp add: tier_of_def)
  have nonneg: "\<forall>x \<in> tier_of st2 ` set (dependencies task). 0 \<le> x"
    using deps sort_inv_tier [OF inv] by (fastforce simp: tier_of_def)
  have m_ge: "- 1 \<le> m"
    unfolding m by (rule Max_insert_ge) simp
  have new_tier: "m + 1 = (if dependencies task = [] then 0
                          else 1 + Max (tier_of ?st' ` set (dependencies task)))"
  proof (cases "dependencies task = []")
    case True
    then show ?thesis by (simp add: m)
  next
    case False
    have "tier_of ?st' ` set (dependencies task) = tier_of st2 ` set (dependencies task)"
      using tdeps by (intro image_cong) (auto simp: tier_of_def)
    moreover have "Max (insert (- 1) (tier_of st2 ` set (dependencies task)))
                     = Max (tier_of st2 ` set (dependencies task))"
      using False nonneg by (intro Max_insert_floor) auto
    ultimately show ?thesis using False by (simp add: m)
  qed
  have old: "tm (task_id (s_task s)) = Some (s_task s)
            \<and> tierMap ?st' (task_id (s_task s)) = Some (tier s)
            \<and> set (dependencies (s_task s)) \<subseteq> visited ?st'
            \<and> 0 \<le> tier s
            \<and> tier s = (if dependencies (s_task s) = [] then 0
                        else 1 + Max (tier_of ?st' ` set (dependencies (s_task s))))"
    if s: "s \<in> set (sorted_acc st2)" for s
  proof -
    from inv s have a: "tm (task_id (s_task s)) = Some (s_task s)"
        "tierMap st2 (task_id (s_task s)) = Some (tier s)"
        "set (dependencies (s_task s)) \<subseteq> visited st2" "0 \<le> tier s"
        "tier s = (if dependencies (s_task s) = [] then 0
                        else 1 + Max (tier_of st2 ` set (dependencies (s_task s))))"
      unfolding sort_inv_def entries_ok_def by blast+
    from inv s have "task_id (s_task s) \<in> visited st2"
      unfolding sort_inv_def entries_ok_def by blast
    then have ne: "task_id (s_task s) \<noteq> t" using fresh by auto
    have "tier_of ?st' ` set (dependencies (s_task s)) = tier_of st2 ` set (dependencies (s_task s))"
      using a(3) fresh by (intro image_cong) (auto simp: tier_of_def)
    then show ?thesis using a ne by auto
  qed
  have ids: "visited st2 = (\<lambda>s. task_id (s_task s)) ` set (sorted_acc st2)"
    and dist: "distinct (map (\<lambda>s. task_id (s_task s)) (sorted_acc st2))"
    and disj: "visited st2 \<inter> visiting st2 = {}"
    using inv unfolding sort_inv_def entries_ok_def by blast+
  show ?thesis
    unfolding sort_inv_def entries_ok_def
  proof (intro conjI ballI)
    show "visited ?st' = (\<lambda>s. task_id (s_task s)) ` set (sorted_acc ?st')"
      using ids tid by auto
    show "distinct (map (\<lambda>s. task_id (s_task s)) (sorted_acc ?st'))"
      using dist fresh ids tid by auto
    show "visited ?st' \<inter> visiting ?st' = {}"
      using disj by auto
  next
    fix s assume "s \<in> set (sorted_acc ?st')"
    then consider "s \<in> set (sorted_acc st2)" | "s = \<lparr>s_task = task, tier = m + 1\<rparr>"
      by auto
    then have "tm (task_id (s_task s)) = Some (s_task s)
            \<and> tierMap ?st' (task_id (s_task s)) = Some (tier s)
            \<and> set (dependencies (s_task s)) \<subseteq> visited ?st'
            \<and> 0 \<le> tier s
            \<and> tier s = (if dependencies (s_task s) = [] then 0
                        else 1 + Max (tier_of ?st' ` set (dependencies (s_task s))))"
    proof cases
      case 1
      then show ?thesis by (rule old)
    next
      case 2
      then show ?thesis
        using t(1) tid deps m_ge new_tier by auto
    qed
    then show "tm (task_id (s_task s)) = Some (s_task s)"
      and "tierMap ?st' (task_id (s_task s)) = Some (tier s)"
      and "set (dependencies (s_task s)) \<subseteq> visited ?st'"
      and "0 \<le> tier s"
      and "tier s = (if dependencies (s_task s) = [] then 0
                        else 1 + Max (tier_of ?st' ` set (dependencies (s_task s))))"
      by blast+
  qed
qed


lemma Max_insert_max:
  assumes "finite S"
  shows "Max (insert (max a b) S) = Max (insert (a::int) (insert b S))"
proof (cases "S = {}")
  case True
  then show ?thesis by (simp add: max.commute)
next
  case False
  then show ?thesis using assms by (simp add: max.assoc)
qed

lemma visit_dependencies_ok:
  assumes step: "\<And>t st k st'. sort_inv tm st \<Longrightarrow> visit n tm t st = Some (Inr (k, st'))
            \<Longrightarrow> sort_inv tm st' \<and> extends st st' \<and> t \<in> visited st' \<and> tierMap st' t = Some k"
  shows "sort_inv tm st \<Longrightarrow> visit_dependencies n tm ds m st = Some (Inr (m', st'))
         \<Longrightarrow> sort_inv tm st' \<and> extends st st' \<and> set ds \<subseteq> visited st'
             \<and> m' = Max (insert m (tier_of st' ` set ds))"
proof (induction ds arbitrary: m st)
  case Nil
  then show ?case by (simp add: extends_refl)
next
  case (Cons d ds)
  from Cons.prems(2) obtain dt st1 where
    v: "visit n tm d st = Some (Inr (dt, st1))" and
    r: "visit_dependencies n tm ds (max m dt) st1 = Some (Inr (m', st'))"
    by (auto split: option.splits sum.splits)
  from step [OF Cons.prems(1) v] have
    a: "sort_inv tm st1" "extends st st1" "d \<in> visited st1" "tierMap st1 d = Some dt"
    by blast+
  from Cons.IH [OF a(1) r] have
    b: "sort_inv tm st'" "extends st1 st'" "set ds \<subseteq> visited st'"
       "m' = Max (insert (max m dt) (tier_of st' ` set ds))"
    by blast+
  have d: "d \<in> visited st'" "tier_of st' d = dt"
    using a(3,4) b(2) by (auto simp: extends_def tier_of_def)
  have "m' = Max (insert m (tier_of st' ` set (d # ds)))"
    using b(4) d(2) by (simp add: Max_insert_max)
  then show ?case
    using b(1,3) d(1) extends_trans [OF a(2) b(2)] by simp
qed

lemma visit_ok:
  assumes key: "keyed tm"
  shows "sort_inv tm st \<Longrightarrow> visit n tm t st = Some (Inr (k, st'))
         \<Longrightarrow> sort_inv tm st' \<and> extends st st' \<and> t \<in> visited st' \<and> tierMap st' t = Some k"
proof (induction n arbitrary: t st k st')
  case 0
  then show ?case by simp
next
  case (Suc n)
  show ?case
  proof (cases "t \<in> visited st")
    case True
    with Suc.prems(2) have "st' = st" "tierMap st t = Some k"
      by (auto split: option.splits)
    with True Suc.prems(1) show ?thesis by (simp add: extends_refl)
  next
    case False
    with Suc.prems(2) obtain task m st2 where
      nv: "t \<notin> visiting st" and tm: "tm t = Some task" and
      loop: "visit_dependencies n tm (dependencies task) (- 1)
               (st\<lparr>visiting := insert t (visiting st)\<rparr>) = Some (Inr (m, st2))" and
      k: "k = m + 1" and
      st': "st' = st2\<lparr>tierMap := (tierMap st2)(t \<mapsto> m + 1),
                visiting := visiting st2 - {t},
                visited := insert t (visited st2),
                sorted_acc := sorted_acc st2 @ [\<lparr>s_task = task, tier = m + 1\<rparr>]\<rparr>"
      by (auto simp: Let_def split: option.splits sum.splits if_splits)
    have inv1: "sort_inv tm (st\<lparr>visiting := insert t (visiting st)\<rparr>)"
      using Suc.prems(1) False by (rule sort_inv_visiting)
    from visit_dependencies_ok [where n = n and tm = tm, OF Suc.IH inv1 loop] have
      b: "sort_inv tm st2" "extends (st\<lparr>visiting := insert t (visiting st)\<rparr>) st2"
         "set (dependencies task) \<subseteq> visited st2"
         "m = Max (insert (- 1) (tier_of st2 ` set (dependencies task)))"
      by blast+
    have vis: "visiting st2 = insert t (visiting st)" "visited st \<subseteq> visited st2"
        "\<forall>x \<in> visited st. tierMap st2 x = tierMap st x"
      using b(2) by (auto simp: extends_def)
    have "sort_inv tm st'"
      unfolding st' using b(1) key tm _ b(3,4) by (rule sort_inv_finish) (simp add: vis)
    moreover have "extends st st'"
      using vis nv False by (auto simp: extends_def st')
    ultimately show ?thesis
      by (simp add: st' k)
  qed
qed

section \<open>Errors and termination of the sort traversal\<close>

lemma dep_relI: "tm i = Some t \<Longrightarrow> d \<in> set (dependencies t) \<Longrightarrow> (i, d) \<in> dep_rel tm"
  by (auto simp: dep_rel_def)

lemma error_sound_mono: "error_sound tm A e \<Longrightarrow> A \<subseteq> B \<Longrightarrow> error_sound tm B e"
  unfolding error_sound_def by blast

lemma visit_dependencies_error:
  assumes key: "keyed tm"
    and step: "\<And>t st e. sort_inv tm st \<Longrightarrow> \<forall>v \<in> visiting st. (v, t) \<in> (dep_rel tm)\<^sup>+
                 \<Longrightarrow> visit n tm t st = Some (Inl e) \<Longrightarrow> error_sound tm {t} e"
  shows "sort_inv tm st \<Longrightarrow> \<forall>v \<in> visiting st. \<forall>d \<in> set ds. (v, d) \<in> (dep_rel tm)\<^sup>+
         \<Longrightarrow> visit_dependencies n tm ds m st = Some (Inl e) \<Longrightarrow> error_sound tm (set ds) e"
proof (induction ds arbitrary: m st)
  case Nil
  then show ?case by simp
next
  case (Cons d ds)
  show ?case
  proof (cases "visit n tm d st")
    case None
    with Cons.prems(3) show ?thesis by simp
  next
    case (Some r)
    show ?thesis
    proof (cases r)
      case (Inl e')
      with Some Cons.prems(3) have "visit n tm d st = Some (Inl e)" by simp
      from step [OF Cons.prems(1) _ this] Cons.prems(2) have "error_sound tm {d} e" by simp
      then show ?thesis by (rule error_sound_mono) simp
    next
      case (Inr p)
      obtain dt st1 where p: "p = (dt, st1)" by (cases p)
      with Some Inr Cons.prems(3) have
        v: "visit n tm d st = Some (Inr (dt, st1))" and
        r: "visit_dependencies n tm ds (max m dt) st1 = Some (Inl e)"
        by simp_all
      from visit_ok [OF key Cons.prems(1) v] have a: "sort_inv tm st1" "visiting st1 = visiting st"
        by (auto simp: extends_def)
      have "error_sound tm (set ds) e"
        using a(1) _ r by (rule Cons.IH) (use Cons.prems(2) a(2) in simp)
      then show ?thesis by (rule error_sound_mono) auto
    qed
  qed
qed

lemma visit_error:
  assumes key: "keyed tm"
  shows "sort_inv tm st \<Longrightarrow> \<forall>v \<in> visiting st. (v, t) \<in> (dep_rel tm)\<^sup>+
         \<Longrightarrow> visit n tm t st = Some (Inl e) \<Longrightarrow> error_sound tm {t} e"
proof (induction n arbitrary: t st e)
  case 0
  then show ?case by simp
next
  case (Suc n)
  show ?case
  proof (cases "t \<in> visited st")
    case True
    then obtain k where "tierMap st t = Some k"
      using sort_inv_tier [OF Suc.prems(1)] by blast
    with True Suc.prems(3) show ?thesis by simp
  next
    case False
    note nvis = this
    show ?thesis
    proof (cases "t \<in> visiting st")
      case True
      with nvis Suc.prems(2,3) show ?thesis
        by (auto simp: error_sound_def)
    next
      case False
      show ?thesis
      proof (cases "tm t")
        case None
        with nvis False Suc.prems(3) show ?thesis
          by (auto simp: error_sound_def)
      next
        case (Some task)
        with nvis False Suc.prems(3) have
          loop: "visit_dependencies n tm (dependencies task) (- 1)
                   (st\<lparr>visiting := insert t (visiting st)\<rparr>) = Some (Inl e)"
          by (auto simp: Let_def split: option.splits sum.splits)
        have edge: "(t, d) \<in> dep_rel tm" if "d \<in> set (dependencies task)" for d
          using Some that by (rule dep_relI)
        have path: "\<forall>v \<in> visiting (st\<lparr>visiting := insert t (visiting st)\<rparr>).
                      \<forall>d \<in> set (dependencies task). (v, d) \<in> (dep_rel tm)\<^sup>+"
          using edge Suc.prems(2) by (auto intro: trancl_into_trancl)
        have "error_sound tm (set (dependencies task)) e"
          using key Suc.IH sort_inv_visiting [OF Suc.prems(1) nvis] path loop
          by (rule visit_dependencies_error)
        then consider i where "e = Circular_dependency_detected i" "(i, i) \<in> (dep_rel tm)\<^sup>+"
          | i d where "e = Task_referenced_but_not_found i" "i \<notin> dom tm"
              "d \<in> set (dependencies task)" "(d, i) \<in> (dep_rel tm)\<^sup>*"
          unfolding error_sound_def by blast
        then show ?thesis
        proof cases
          case 1
          then show ?thesis unfolding error_sound_def by blast
        next
          case 2
          from edge [OF 2(3)] 2(4) have "(t, i) \<in> (dep_rel tm)\<^sup>*"
            by (rule converse_rtrancl_into_rtrancl)
          with 2(1,2) show ?thesis unfolding error_sound_def by blast
        qed
      qed
    qed
  qed
qed

lemma visit_dependencies_fuel:
  assumes key: "keyed tm"
    and step: "\<And>t st. sort_inv tm st \<Longrightarrow> card (dom tm - visiting st) < n \<Longrightarrow> visit n tm t st \<noteq> None"
  shows "sort_inv tm st \<Longrightarrow> card (dom tm - visiting st) < n
         \<Longrightarrow> visit_dependencies n tm ds m st \<noteq> None"
proof (induction ds arbitrary: m st)
  case Nil
  then show ?case by simp
next
  case (Cons d ds)
  from step [OF Cons.prems] obtain r where r: "visit n tm d st = Some r" by blast
  show ?case
  proof (cases r)
    case (Inl e)
    with r show ?thesis by simp
  next
    case (Inr p)
    obtain dt st1 where p: "p = (dt, st1)" by (cases p)
    from visit_ok [OF key Cons.prems(1)] r Inr p have "sort_inv tm st1" "visiting st1 = visiting st"
      by (auto simp: extends_def)
    with Cons.IH [of st1] Cons.prems(2) r Inr p show ?thesis by simp
  qed
qed

lemma visit_fuel:
  assumes key: "keyed tm" and fin: "finite (dom tm)"
  shows "sort_inv tm st \<Longrightarrow> card (dom tm - visiting st) < n \<Longrightarrow> visit n tm t st \<noteq> None"
proof (induction n arbitrary: t st)
  case 0
  then show ?case by simp
next
  case (Suc n)
  show ?case
  proof (cases "t \<in> visited st \<or> t \<in> visiting st \<or> tm t = None")
    case True
    then show ?thesis by (auto split: option.splits)
  next
    case False
    then obtain task where task: "tm t = Some task" by auto
    have "t \<in> dom tm - visiting st" using False task by auto
    then have "card (dom tm - insert t (visiting st)) < card (dom tm - visiting st)"
      using fin by (intro psubset_card_mono) auto
    then have less: "card (dom tm - visiting (st\<lparr>visiting := insert t (visiting st)\<rparr>)) < n"
      using Suc.prems(2) by simp
    have inv1: "sort_inv tm (st\<lparr>visiting := insert t (visiting st)\<rparr>)"
      using Suc.prems(1) False by (simp add: sort_inv_visiting)
    have "visit_dependencies n tm (dependencies task) (- 1)
            (st\<lparr>visiting := insert t (visiting st)\<rparr>) \<noteq> None"
      using key Suc.IH inv1 less by (rule visit_dependencies_fuel)
    with False task show ?thesis
      by (auto simp: Let_def split: option.splits sum.splits)
  qed
qed

section \<open>The whole run of the sort\<close>

lemma keyed_taskMap_of: "keyed (taskMap_of tasks)"
  unfolding keyed_def taskMap_of_def by (auto dest!: map_of_SomeD)

lemma dom_taskMap_of: "dom (taskMap_of tasks) = task_id ` set tasks"
  unfolding taskMap_of_def by (simp add: dom_map_of_conv_image_fst image_image)

lemma finite_dom_taskMap_of: "finite (dom (taskMap_of tasks))"
  by (simp add: dom_taskMap_of)

lemma card_dom_taskMap_of: "card (dom (taskMap_of tasks)) \<le> length tasks"
  unfolding dom_taskMap_of by (metis card_image_le card_length le_trans List.finite_set)

lemma taskMap_of_distinct:
  assumes "distinct (map task_id tasks)" "t \<in> set tasks"
  shows "taskMap_of tasks (task_id t) = Some t"
  unfolding taskMap_of_def
  using assms by (intro map_of_is_SomeI) (auto simp: distinct_rev rev_map [symmetric] comp_def)

lemma sort_inv_initial: "sort_inv tm initial_sort_state"
  by (simp add: sort_inv_def entries_ok_def initial_sort_state_def)

lemma visit_tasks_ok:
  assumes key: "keyed tm"
  shows "sort_inv tm st \<Longrightarrow> visit_tasks n tm ts st = Some (Inr st')
         \<Longrightarrow> sort_inv tm st' \<and> extends st st' \<and> task_id ` set ts \<subseteq> visited st'"
proof (induction ts arbitrary: st)
  case Nil
  then show ?case by (simp add: extends_refl)
next
  case (Cons a ts)
  show ?case
  proof (cases "task_id a \<in> visited st")
    case True
    with Cons.prems(2) have "visit_tasks n tm ts st = Some (Inr st')" by simp
    from Cons.IH [OF Cons.prems(1) this] True show ?thesis
      by (auto simp: extends_def)
  next
    case False
    with Cons.prems(2) obtain k st1 where
      v: "visit n tm (task_id a) st = Some (Inr (k, st1))" and
      r: "visit_tasks n tm ts st1 = Some (Inr st')"
      by (auto split: option.splits sum.splits)
    from visit_ok [OF key Cons.prems(1) v] have
      a: "sort_inv tm st1" "extends st st1" "task_id a \<in> visited st1" by blast+
    from Cons.IH [OF a(1) r] have
      b: "sort_inv tm st'" "extends st1 st'" "task_id ` set ts \<subseteq> visited st'" by blast+
    show ?thesis
      using b(1,3) a(3) b(2) extends_trans [OF a(2) b(2)] by (auto simp: extends_def)
  qed
qed

lemma visit_tasks_error:
  assumes key: "keyed tm"
  shows "sort_inv tm st \<Longrightarrow> visiting st = {} \<Longrightarrow> visit_tasks n tm ts st = Some (Inl e)
         \<Longrightarrow> error_sound tm (task_id ` set ts) e"
proof (induction ts arbitrary: st)
  case Nil
  then show ?case by simp
next
  case (Cons a ts)
  show ?case
  proof (cases "task_id a \<in> visited st")
    case True
    with Cons.prems(3) have "visit_tasks n tm ts st = Some (Inl e)" by simp
    from Cons.IH [OF Cons.prems(1,2) this] show ?thesis
      by (rule error_sound_mono) auto
  next
    case False
    show ?thesis
    proof (cases "visit n tm (task_id a) st")
      case None
      with False Cons.prems(3) show ?thesis by simp
    next
      case (Some r)
      show ?thesis
      proof (cases r)
        case (Inl e')
        with Some False Cons.prems(3) have "visit n tm (task_id a) st = Some (Inl e)" by simp
        from visit_error [OF key Cons.prems(1) _ this] Cons.prems(2)
        have "error_sound tm {task_id a} e" by simp
        then show ?thesis by (rule error_sound_mono) simp
      next
        case (Inr p)
        obtain k st1 where p: "p = (k, st1)" by (cases p)
        with Some Inr False Cons.prems(3) have
          v: "visit n tm (task_id a) st = Some (Inr (k, st1))" and
          r: "visit_tasks n tm ts st1 = Some (Inl e)"
          by simp_all
        from visit_ok [OF key Cons.prems(1) v] Cons.prems(2)
        have "sort_inv tm st1" "visiting st1 = {}"
          by (auto simp: extends_def)
        from Cons.IH [OF this r] show ?thesis
          by (rule error_sound_mono) auto
      qed
    qed
  qed
qed

lemma visit_tasks_fuel:
  assumes key: "keyed tm" and fin: "finite (dom tm)"
  shows "sort_inv tm st \<Longrightarrow> card (dom tm - visiting st) < n \<Longrightarrow> visit_tasks n tm ts st \<noteq> None"
proof (induction ts arbitrary: st)
  case Nil
  then show ?case by simp
next
  case (Cons a ts)
  show ?case
  proof (cases "task_id a \<in> visited st")
    case True
    with Cons show ?thesis by simp
  next
    case False
    from visit_fuel [OF key fin Cons.prems] obtain r where
      r: "visit n tm (task_id a) st = Some r" by blast
    show ?thesis
    proof (cases r)
      case (Inl e)
      with r False show ?thesis by simp
    next
      case (Inr p)
      obtain k st1 where p: "p = (k, st1)" by (cases p)
      from visit_ok [OF key Cons.prems(1)] r Inr p
      have "sort_inv tm st1" "visiting st1 = visiting st"
        by (auto simp: extends_def)
      with Cons.IH [of st1] Cons.prems(2) r Inr p False show ?thesis by simp
    qed
  qed
qed

text \<open>The state in which a successful run ends.\<close>

lemma final_state:
  assumes key: "keyed tm" and dom: "dom tm = task_id ` set ts"
    and run: "visit_tasks n tm ts initial_sort_state = Some (Inr st)"
  shows "entries_ok tm st \<and> visited st = dom tm"
proof -
  from visit_tasks_ok [OF key sort_inv_initial run] have
    a: "sort_inv tm st" "task_id ` set ts \<subseteq> visited st" by blast+
  have "visited st \<subseteq> dom tm"
    using a(1) unfolding sort_inv_def entries_ok_def by auto
  with a dom show ?thesis by (auto simp: sort_inv_def)
qed

lemma entries_ok_entry:
  assumes "entries_ok tm st" "i \<in> visited st" "tm i = Some t"
  shows "\<lparr>s_task = t, tier = tier_of st i\<rparr> \<in> set (sorted_acc st)
         \<and> set (dependencies t) \<subseteq> visited st
         \<and> 0 \<le> tier_of st i
         \<and> tier_of st i = (if dependencies t = [] then 0
                           else 1 + Max (tier_of st ` set (dependencies t)))"
proof -
  from assms(1,2) obtain s where s: "s \<in> set (sorted_acc st)" "task_id (s_task s) = i"
    unfolding entries_ok_def by auto
  with assms(1) have a: "tm i = Some (s_task s)" "tierMap st i = Some (tier s)"
    "set (dependencies (s_task s)) \<subseteq> visited st" "0 \<le> tier s"
    "tier s = (if dependencies (s_task s) = [] then 0
               else 1 + Max (tier_of st ` set (dependencies (s_task s))))"
    unfolding entries_ok_def by blast+
  have t: "s_task s = t" using a(1) assms(3) by simp
  have k: "tier_of st i = tier s" using a(2) by (simp add: tier_of_def)
  have "s = \<lparr>s_task = t, tier = tier_of st i\<rparr>" using t k by simp
  with s(1) have "\<lparr>s_task = t, tier = tier_of st i\<rparr> \<in> set (sorted_acc st)" by simp
  moreover have "set (dependencies t) \<subseteq> visited st" using a(3) t by simp
  moreover have "0 \<le> tier_of st i" using a(4) k by simp
  moreover have "tier_of st i = (if dependencies t = [] then 0
                           else 1 + Max (tier_of st ` set (dependencies t)))"
    using a(5) t k by simp
  ultimately show ?thesis by blast
qed

lemma final_complete:
  assumes "entries_ok tm st" "visited st = dom tm"
  shows "complete tm"
  unfolding complete_def dep_rel_def
  using entries_ok_entry [OF assms(1)] assms(2) by blast

lemma final_tier_less:
  assumes ok: "entries_ok tm st" "visited st = dom tm" and e: "(i, d) \<in> dep_rel tm"
  shows "tier_of st d < tier_of st i"
proof -
  from e obtain t where t: "tm i = Some t" "d \<in> set (dependencies t)"
    by (auto simp: dep_rel_def)
  then have "i \<in> visited st" using ok(2) by auto
  from entries_ok_entry [OF ok(1) this t(1)] t(2)
  have "tier_of st i = 1 + Max (tier_of st ` set (dependencies t))"
    by auto
  moreover have "tier_of st d \<le> Max (tier_of st ` set (dependencies t))"
    using t(2) by simp
  ultimately show ?thesis by simp
qed

lemma final_acyclic:
  assumes "entries_ok tm st" "visited st = dom tm"
  shows "\<not> cyclic tm"
proof -
  have "acyclic (dep_rel tm)"
    by (rule acyclicI_order [where f = "tier_of st"]) (rule final_tier_less [OF assms])
  then show ?thesis by (simp add: cyclic_def acyclic_def)
qed

lemma finite_dep_rel:
  assumes "finite (dom tm)"
  shows "finite (dep_rel tm)"
proof -
  have "dep_rel tm \<subseteq> (\<Union>i \<in> dom tm. {i} \<times> set (dependencies (the (tm i))))"
    by (auto simp: dep_rel_def)
  moreover have "finite (\<Union>i \<in> dom tm. {i} \<times> set (dependencies (the (tm i))))"
    using assms by simp
  ultimately show ?thesis by (rule finite_subset)
qed

lemma tiers_unique:
  assumes fin: "finite (dom tm)"
    and a: "entries_ok tm st1" "visited st1 = dom tm"
    and b: "entries_ok tm st2" "visited st2 = dom tm"
  shows "i \<in> dom tm \<Longrightarrow> tier_of st1 i = tier_of st2 i"
proof -
  have "acyclic (dep_rel tm)"
    using final_acyclic [OF a] by (simp add: cyclic_def acyclic_def)
  with finite_dep_rel [OF fin] have "wf ((dep_rel tm)\<inverse>)"
    by (rule finite_acyclic_wf_converse)
  then show "i \<in> dom tm \<Longrightarrow> tier_of st1 i = tier_of st2 i"
  proof (induction i rule: wf_induct_rule)
    case (less i)
    then obtain t where t: "tm i = Some t" by auto
    have i: "i \<in> visited st1" "i \<in> visited st2" using less.prems a(2) b(2) by auto
    note e1 = entries_ok_entry [OF a(1) i(1) t]
    note e2 = entries_ok_entry [OF b(1) i(2) t]
    have "tier_of st1 d = tier_of st2 d" if "d \<in> set (dependencies t)" for d
    proof -
      have "(d, i) \<in> (dep_rel tm)\<inverse>" using t that by (auto simp: dep_rel_def)
      moreover have "d \<in> dom tm" using e1 that a(2) by auto
      ultimately show ?thesis by (rule less.IH)
    qed
    then have "tier_of st1 ` set (dependencies t) = tier_of st2 ` set (dependencies t)"
      by (intro image_cong) auto
    with e1 e2 show ?case by simp
  qed
qed

lemma final_entries_subset:
  assumes fin: "finite (dom tm)"
    and a: "entries_ok tm st1" "visited st1 = dom tm"
    and b: "entries_ok tm st2" "visited st2 = dom tm"
  shows "set (sorted_acc st1) \<subseteq> set (sorted_acc st2)"
proof
  fix s assume s: "s \<in> set (sorted_acc st1)"
  with a(1) have f: "tm (task_id (s_task s)) = Some (s_task s)"
    "tierMap st1 (task_id (s_task s)) = Some (tier s)"
    unfolding entries_ok_def by blast+
  then have i: "task_id (s_task s) \<in> dom tm" by auto
  from tiers_unique [OF fin a b i] f(2) have "tier_of st2 (task_id (s_task s)) = tier s"
    by (simp add: tier_of_def)
  moreover from i b(2) have "task_id (s_task s) \<in> visited st2" by simp
  from entries_ok_entry [OF b(1) this f(1)]
  have "\<lparr>s_task = s_task s, tier = tier_of st2 (task_id (s_task s))\<rparr> \<in> set (sorted_acc st2)"
    by blast
  moreover have "\<lparr>s_task = s_task s, tier = tier s\<rparr> = s" by simp
  ultimately show "s \<in> set (sorted_acc st2)" by simp
qed

lemma final_entries_unique:
  assumes "finite (dom tm)" "entries_ok tm st1" "visited st1 = dom tm"
    "entries_ok tm st2" "visited st2 = dom tm"
  shows "set (sorted_acc st1) = set (sorted_acc st2)"
  using final_entries_subset [OF assms] final_entries_subset [OF assms(1,4,5,2,3)] by blast

section \<open>What the sort returns and when it throws\<close>

lemma dep_rel_taskMap_of:
  assumes "distinct (map task_id tasks)"
  shows "dep_rel (taskMap_of tasks) = task_edges tasks"
proof -
  have "taskMap_of tasks i = Some t \<longleftrightarrow> t \<in> set tasks \<and> task_id t = i" for i t
  proof
    assume "taskMap_of tasks i = Some t"
    then show "t \<in> set tasks \<and> task_id t = i"
      unfolding taskMap_of_def by (auto dest!: map_of_SomeD)
  next
    assume "t \<in> set tasks \<and> task_id t = i"
    then show "taskMap_of tasks i = Some t"
      using taskMap_of_distinct [OF assms] by blast
  qed
  then show ?thesis
    unfolding dep_rel_def task_edges_def by auto
qed

lemma complete_taskMap_of:
  assumes "distinct (map task_id tasks)"
  shows "complete (taskMap_of tasks) = referentially_complete tasks"
  unfolding complete_def dep_rel_taskMap_of [OF assms] dom_taskMap_of
  by (auto simp: task_edges_def referentially_complete_def)

lemma cyclic_taskMap_of:
  assumes "distinct (map task_id tasks)"
  shows "cyclic (taskMap_of tasks) = (\<not> acyclic (task_edges tasks))"
  unfolding cyclic_def dep_rel_taskMap_of [OF assms] by (simp add: acyclic_def)

lemma insert_by_compare_sorted: "insert_by compare_sorted x ys = insort_key order_key x ys"
  by (induction ys) (auto simp: compare_sorted_def order_key_def less_eq_prod_def)

lemma sort_by_compare_sorted: "sort_by compare_sorted xs = sort_key order_key xs"
proof -
  have "insert_by compare_sorted = insort_key order_key"
    by (intro ext) (rule insert_by_compare_sorted)
  then show ?thesis by (simp add: sort_by_def sort_key_def)
qed

text \<open>An unresolved id that a traversal from the tasks themselves reports is a dependency
  of some task.\<close>

lemma error_sound_defect:
  assumes "error_sound tm (dom tm) e"
  shows "(\<exists>i. e = Circular_dependency_detected i \<and> (i, i) \<in> (dep_rel tm)\<^sup>+)
         \<or> (\<exists>i. e = Task_referenced_but_not_found i \<and> i \<notin> dom tm \<and> i \<in> Range (dep_rel tm))"
proof -
  have "i \<in> Range (dep_rel tm)" if "t \<in> dom tm" "i \<notin> dom tm" "(t, i) \<in> (dep_rel tm)\<^sup>*" for t i
  proof -
    from that have "t \<noteq> i" by auto
    with that(3) have "(t, i) \<in> (dep_rel tm)\<^sup>+" by (simp add: rtrancl_eq_or_trancl)
    then show ?thesis by (metis Range.intros tranclE)
  qed
  with assms show ?thesis unfolding error_sound_def by blast
qed

lemma topologicalSort_cases:
  obtains (returns) st where
      "visit_tasks (Suc (length tasks)) (taskMap_of tasks) tasks initial_sort_state = Some (Inr st)"
      "entries_ok (taskMap_of tasks) st" "visited st = dom (taskMap_of tasks)"
      "topologicalSort tasks = Some (Inr (sort_key order_key (sorted_acc st)))"
  | (throws) e where "topologicalSort tasks = Some (Inl e)"
      "error_sound (taskMap_of tasks) (dom (taskMap_of tasks)) e"
proof -
  let ?tm = "taskMap_of tasks"
  let ?run = "visit_tasks (Suc (length tasks)) ?tm tasks initial_sort_state"
  have "card (dom ?tm - visiting initial_sort_state) < Suc (length tasks)"
    using card_dom_taskMap_of [of tasks] by (simp add: initial_sort_state_def)
  with visit_tasks_fuel [OF keyed_taskMap_of finite_dom_taskMap_of sort_inv_initial]
  obtain r where r: "?run = Some r" by blast
  show thesis
  proof (cases r)
    case (Inl e)
    have "error_sound ?tm (task_id ` set tasks) e"
      using keyed_taskMap_of sort_inv_initial
      by (rule visit_tasks_error) (use r Inl in \<open>simp_all add: initial_sort_state_def\<close>)
    then show ?thesis
      using throws [of e] r Inl by (simp add: topologicalSort_def dom_taskMap_of)
  next
    case (Inr st)
    with r have run: "?run = Some (Inr st)" by simp
    from final_state [OF keyed_taskMap_of dom_taskMap_of run]
    show ?thesis
      using returns [of st] run by (simp add: topologicalSort_def sort_by_compare_sorted)
  qed
qed

lemma topologicalSort_returns: "topologicalSort tasks \<noteq> None"
  by (rule topologicalSort_cases [of tasks]) simp_all

lemma defect_free_returns:
  assumes "complete (taskMap_of tasks)" "\<not> cyclic (taskMap_of tasks)"
  obtains st where
      "entries_ok (taskMap_of tasks) st" "visited st = dom (taskMap_of tasks)"
      "topologicalSort tasks = Some (Inr (sort_key order_key (sorted_acc st)))"
proof (rule topologicalSort_cases [of tasks])
  fix st assume "entries_ok (taskMap_of tasks) st" "visited st = dom (taskMap_of tasks)"
      "topologicalSort tasks = Some (Inr (sort_key order_key (sorted_acc st)))"
  then show thesis by (rule that)
next
  fix e assume "error_sound (taskMap_of tasks) (dom (taskMap_of tasks)) e"
  from error_sound_defect [OF this] assms have False
    unfolding cyclic_def complete_def by fastforce
  then show thesis ..
qed

lemma entries_ok_distinct:
  assumes "entries_ok tm st"
  shows "distinct (sorted_acc st)" "inj_on order_key (set (sorted_acc st))"
    "inj_on (\<lambda>s. task_id (s_task s)) (set (sorted_acc st))"
proof -
  from assms have d: "distinct (map (\<lambda>s. task_id (s_task s)) (sorted_acc st))"
    unfolding entries_ok_def by blast
  then show "distinct (sorted_acc st)" and i: "inj_on (\<lambda>s. task_id (s_task s)) (set (sorted_acc st))"
    by (simp_all add: distinct_map)
  show "inj_on order_key (set (sorted_acc st))"
    using i unfolding inj_on_def order_key_def by auto
qed

lemma entries_ok_tier_of:
  assumes "entries_ok tm st" "s \<in> set (sorted_acc st)"
  shows "tier_of st (task_id (s_task s)) = tier s"
  using assms unfolding entries_ok_def tier_of_def by auto

text \<open>The tiers of the dependencies of an entry, read off the output alone.\<close>

lemma dependency_tiers:
  assumes ok: "entries_ok tm st" "visited st = dom tm" and key: "keyed tm"
    and D: "D \<subseteq> visited st"
  shows "{tier s' |s'. s' \<in> set (sorted_acc st) \<and> task_id (s_task s') \<in> D} = tier_of st ` D"
proof (intro set_eqI iffI)
  fix k assume "k \<in> {tier s' |s'. s' \<in> set (sorted_acc st) \<and> task_id (s_task s') \<in> D}"
  then obtain s' where "s' \<in> set (sorted_acc st)" "task_id (s_task s') \<in> D" "k = tier s'"
    by blast
  with entries_ok_tier_of [OF ok(1)] show "k \<in> tier_of st ` D"
    by (metis imageI)
next
  fix k assume "k \<in> tier_of st ` D"
  then obtain d where d: "d \<in> D" "k = tier_of st d" by blast
  with D ok(2) obtain t where t: "tm d = Some t" by auto
  from d D have "d \<in> visited st" by auto
  from entries_ok_entry [OF ok(1) this t]
  have "\<lparr>s_task = t, tier = tier_of st d\<rparr> \<in> set (sorted_acc st)" by blast
  moreover have "task_id t = d" using key t by (simp add: keyed_def)
  ultimately show "k \<in> {tier s' |s'. s' \<in> set (sorted_acc st) \<and> task_id (s_task s') \<in> D}"
    using d by force
qed

lemma final_tasks:
  assumes dist: "distinct (map task_id tasks)"
    and ok: "entries_ok (taskMap_of tasks) st" "visited st = dom (taskMap_of tasks)"
  shows "mset (map s_task (sorted_acc st)) = mset tasks"
proof -
  let ?tm = "taskMap_of tasks"
  have d1: "distinct (map s_task (sorted_acc st))"
  proof -
    have "distinct (map (task_id \<circ> s_task) (sorted_acc st))"
      using ok(1) unfolding entries_ok_def comp_def by blast
    then have "distinct (map task_id (map s_task (sorted_acc st)))"
      by (simp only: map_map)
    then show ?thesis
      unfolding distinct_map [of task_id] by (rule conjunct1)
  qed
  have d2: "distinct tasks" using dist by (simp add: distinct_map)
  have "set (map s_task (sorted_acc st)) = set tasks"
  proof (intro set_eqI iffI)
    fix t assume "t \<in> set (map s_task (sorted_acc st))"
    then obtain s where "s \<in> set (sorted_acc st)" "t = s_task s" by auto
    with ok(1) have "?tm (task_id t) = Some t" unfolding entries_ok_def by blast
    then show "t \<in> set tasks" unfolding taskMap_of_def by (auto dest!: map_of_SomeD)
  next
    fix t assume t: "t \<in> set tasks"
    then have "task_id t \<in> visited st" using ok(2) by (simp add: dom_taskMap_of)
    from entries_ok_entry [OF ok(1) this taskMap_of_distinct [OF dist t]]
    have "\<lparr>s_task = t, tier = tier_of st (task_id t)\<rparr> \<in> set (sorted_acc st)" by blast
    then show "t \<in> set (map s_task (sorted_acc st))" by force
  qed
  with d1 d2 show ?thesis by (simp only: set_eq_iff_mset_eq_distinct)
qed

text \<open>
  C1. For a task set (ids unique) that is referentially complete and acyclic,
  \<open>topologicalSort\<close> returns; its output holds every input task exactly once; every
  entry's tier is 0 when the task has no dependencies and otherwise 1 plus the greatest
  tier among the entries of its dependencies; and every dependency of an entry stands at a
  strictly smaller position of the output.
\<close>

theorem topologicalSort_tiers_and_order:
  assumes "distinct (map task_id tasks)"
    and "referentially_complete tasks"
    and "acyclic (task_edges tasks)"
  shows "\<exists>out. topologicalSort tasks = Some (Inr out)
           \<and> mset (map s_task out) = mset tasks
           \<and> (\<forall>s \<in> set out.
                 tier s = (if dependencies (s_task s) = [] then 0
                           else 1 + Max {tier s' |s'. s' \<in> set out
                                          \<and> task_id (s_task s') \<in> set (dependencies (s_task s))}))
           \<and> (\<forall>j < length out. \<forall>d \<in> set (dependencies (s_task (out ! j))).
                 \<exists>i < j. task_id (s_task (out ! i)) = d)"
proof -
  let ?tm = "taskMap_of tasks"
  have "complete ?tm" "\<not> cyclic ?tm"
    using assms by (simp_all add: complete_taskMap_of cyclic_taskMap_of)
  then obtain st where ok: "entries_ok ?tm st" "visited st = dom ?tm"
    and res: "topologicalSort tasks = Some (Inr (sort_key order_key (sorted_acc st)))"
    by (rule defect_free_returns)
  let ?out = "sort_key order_key (sorted_acc st)"
  have set_out: "set ?out = set (sorted_acc st)" by simp
  have "mset (map s_task ?out) = mset tasks"
    using final_tasks [OF assms(1) ok] by simp
  moreover have tiers: "tier s = (if dependencies (s_task s) = [] then 0
                   else 1 + Max {tier s' |s'. s' \<in> set ?out
                                  \<and> task_id (s_task s') \<in> set (dependencies (s_task s))})"
    if "s \<in> set ?out" for s
  proof -
    from that have s: "s \<in> set (sorted_acc st)" by simp
    with ok(1) have a: "set (dependencies (s_task s)) \<subseteq> visited st"
      "tier s = (if dependencies (s_task s) = [] then 0
                 else 1 + Max (tier_of st ` set (dependencies (s_task s))))"
      unfolding entries_ok_def by blast+
    from dependency_tiers [OF ok keyed_taskMap_of a(1)] a(2) show ?thesis
      by (simp only: set_out)
  qed
  moreover have "\<exists>i < j. task_id (s_task (?out ! i)) = d"
    if j: "j < length ?out" and d: "d \<in> set (dependencies (s_task (?out ! j)))" for j d
  proof -
    let ?s = "?out ! j"
    have s: "?s \<in> set (sorted_acc st)" using j by (metis nth_mem set_out)
    with ok(1) have sm: "?tm (task_id (s_task ?s)) = Some (s_task ?s)"
      "set (dependencies (s_task ?s)) \<subseteq> visited st"
      unfolding entries_ok_def by blast+
    from sm(1) d have edge: "(task_id (s_task ?s), d) \<in> dep_rel ?tm"
      by (rule dep_relI)
    from d sm(2) ok(2) obtain t where t: "?tm d = Some t" by auto
    have "d \<in> visited st" using d sm(2) by auto
    from entries_ok_entry [OF ok(1) this t]
    have "\<lparr>s_task = t, tier = tier_of st d\<rparr> \<in> set (sorted_acc st)" by blast
    then have "\<lparr>s_task = t, tier = tier_of st d\<rparr> \<in> set ?out" by (simp only: set_out)
    then obtain i where i: "i < length ?out" "?out ! i = \<lparr>s_task = t, tier = tier_of st d\<rparr>"
      unfolding in_set_conv_nth by blast
    have td: "task_id t = d" using keyed_taskMap_of t by (simp add: keyed_def)
    have less: "tier (?out ! i) < tier ?s"
      using final_tier_less [OF ok edge] entries_ok_tier_of [OF ok(1) s] i(2) by simp
    have "i < j"
    proof (rule ccontr)
      assume "\<not> i < j"
      then have "j \<le> i" by simp
      moreover have "sorted (map order_key ?out)" by simp
      ultimately have "map order_key ?out ! j \<le> map order_key ?out ! i"
        using i(1) by (intro sorted_nth_mono) simp_all
      then have "order_key ?s \<le> order_key (?out ! i)"
        using i(1) j by simp
      then show False using less by (auto simp: order_key_def less_eq_prod_def)
    qed
    then show ?thesis using i(2) td by auto
  qed
  ultimately show ?thesis using res by blast
qed

lemma acyclic_task_edges_by_rank:
  assumes "\<And>t d. t \<in> set tasks \<Longrightarrow> d \<in> set (dependencies t) \<Longrightarrow> (f d :: int) < f (task_id t)"
  shows "acyclic (task_edges tasks)"
  by (rule acyclicI_order [where f = f]) (use assms in \<open>auto simp: task_edges_def\<close>)

lemma scenario_A_sorted:
  "topologicalSort scenario_A
     = Some (Inr [\<lparr>s_task = mk_task 1 [], tier = 0\<rparr>, \<lparr>s_task = mk_task 2 [1], tier = 1\<rparr>,
                  \<lparr>s_task = mk_task 3 [1, 2], tier = 2\<rparr>])"
  by code_simp

lemma scenario_A_reordered_sorted:
  "topologicalSort scenario_A_reordered
     = Some (Inr [\<lparr>s_task = mk_task 1 [], tier = 0\<rparr>, \<lparr>s_task = mk_task 2 [1], tier = 1\<rparr>,
                  \<lparr>s_task = mk_task 3 [1, 2], tier = 2\<rparr>])"
  by code_simp

lemma self_dependent_sorted:
  "topologicalSort self_dependent = Some (Inl (Circular_dependency_detected 1))"
  by code_simp

lemma scenario_C_sorted:
  "topologicalSort scenario_C = Some (Inl (Task_referenced_but_not_found 99))"
  by code_simp

lemma missing_then_cycle_sorted:
  "topologicalSort missing_then_cycle = Some (Inl (Task_referenced_but_not_found 99))"
  by code_simp


theorem topologicalSort_tiers_and_order_witness:
  "distinct (map task_id scenario_A) \<and> referentially_complete scenario_A
   \<and> acyclic (task_edges scenario_A)
   \<and> topologicalSort scenario_A
       = Some (Inr [\<lparr>s_task = mk_task 1 [], tier = 0\<rparr>, \<lparr>s_task = mk_task 2 [1], tier = 1\<rparr>,
                    \<lparr>s_task = mk_task 3 [1, 2], tier = 2\<rparr>])
   \<and> (\<exists>out. topologicalSort scenario_A = Some (Inr out)
           \<and> mset (map s_task out) = mset scenario_A
           \<and> (\<forall>s \<in> set out.
                 tier s = (if dependencies (s_task s) = [] then 0
                           else 1 + Max {tier s' |s'. s' \<in> set out
                                          \<and> task_id (s_task s') \<in> set (dependencies (s_task s))}))
           \<and> (\<forall>j < length out. \<forall>d \<in> set (dependencies (s_task (out ! j))).
                 \<exists>i < j. task_id (s_task (out ! i)) = d))"
proof -
  have d: "distinct (map task_id scenario_A)"
    by (simp add: scenario_A_def mk_task_def)
  have c: "referentially_complete scenario_A"
    by (simp add: referentially_complete_def scenario_A_def mk_task_def)
  have a: "acyclic (task_edges scenario_A)"
    by (rule acyclic_task_edges_by_rank [where f = id])
       (auto simp: scenario_A_def mk_task_def)
  from topologicalSort_tiers_and_order [OF d c a] d c a scenario_A_sorted
  show ?thesis by blast
qed

lemma same_output_on_permutation:
  assumes "distinct (map task_id tasks)"
    and "mset tasks' = mset tasks"
    and "topologicalSort tasks = Some (Inr out)"
  shows "topologicalSort tasks' = Some (Inr out)
         \<and> sorted_wrt (\<lambda>a b. tier a < tier b
                  \<or> (tier a = tier b \<and> task_id (s_task a) < task_id (s_task b))) out"
proof -
  let ?tm = "taskMap_of tasks"
  have set_eq: "set tasks' = set tasks" using assms(2) by (rule mset_eq_setD)
  have dist': "distinct (map task_id tasks')"
    using assms(1,2) by (metis distinct_map mset_eq_setD mset_eq_imp_distinct_iff)
  have tm: "taskMap_of tasks' = ?tm"
    unfolding taskMap_of_def
    using assms(1) dist' set_eq
    by (subst map_of_inject_set) (simp_all add: distinct_rev rev_map [symmetric] comp_def)
  obtain st where ok: "entries_ok ?tm st" "visited st = dom ?tm"
    and out: "out = sort_key order_key (sorted_acc st)"
    by (rule topologicalSort_cases [of tasks]) (use assms(3) in simp_all)
  have "complete ?tm" "\<not> cyclic ?tm"
    using ok by (rule final_complete, rule final_acyclic)
  then have "complete (taskMap_of tasks')" "\<not> cyclic (taskMap_of tasks')"
    by (simp_all add: tm)
  then obtain st' where ok': "entries_ok ?tm st'" "visited st' = dom ?tm"
    and res': "topologicalSort tasks' = Some (Inr (sort_key order_key (sorted_acc st')))"
    unfolding tm [symmetric] by (rule defect_free_returns)
  have "set (sorted_acc st') = set (sorted_acc st)"
    using finite_dom_taskMap_of ok' ok by (rule final_entries_unique)
  then have "mset (sorted_acc st') = mset (sorted_acc st)"
    using entries_ok_distinct(1) [OF ok(1)] entries_ok_distinct(1) [OF ok'(1)]
    by (simp only: set_eq_iff_mset_eq_distinct)
  then have "mset (sorted_acc st') = mset out" by (simp add: out)
  moreover have "inj_on order_key (set (sorted_acc st'))"
    using ok'(1) by (rule entries_ok_distinct)
  moreover have "sorted (map order_key out)" by (simp add: out)
  ultimately have "sort_key order_key (sorted_acc st') = out"
    by (rule sort_key_inj_key_eq)
  with res' have same: "topologicalSort tasks' = Some (Inr out)" by simp
  have "distinct (map order_key (sorted_acc st))"
    using entries_ok_distinct(1,2) [OF ok(1)] by (simp add: distinct_map)
  then have "distinct (map order_key out)"
    unfolding out by (metis distinct_map distinct_sort set_sort)
  with \<open>sorted (map order_key out)\<close> have "sorted_wrt (<) (map order_key out)"
    by (simp add: strict_sorted_iff)
  then have "sorted_wrt (\<lambda>a b. order_key a < order_key b) out"
    by (simp add: sorted_wrt_map)
  then have "sorted_wrt (\<lambda>a b. tier a < tier b
                  \<or> (tier a = tier b \<and> task_id (s_task a) < task_id (s_task b))) out"
    by (rule sorted_wrt_mono_rel [rotated]) (auto simp: order_key_def less_prod_def)
  with same show ?thesis by blast
qed

text \<open>
  C3. The sort does not depend on the order of the input array: for a task set (ids
  unique) and every permutation of the input, the sort returns a sequence on the one
  exactly when it returns the same sequence on the other (so it throws on both or on
  neither), and a returned sequence is strictly ascending in tier, then in task id.
\<close>

theorem topologicalSort_order_independent:
  assumes "distinct (map task_id tasks)"
    and "mset tasks' = mset tasks"
  shows "(topologicalSort tasks' = Some (Inr out) \<longleftrightarrow> topologicalSort tasks = Some (Inr out))
         \<and> ((\<exists>e. topologicalSort tasks' = Some (Inl e)) \<longleftrightarrow> (\<exists>e. topologicalSort tasks = Some (Inl e)))
         \<and> (topologicalSort tasks = Some (Inr out)
              \<longrightarrow> sorted_wrt (\<lambda>a b. tier a < tier b
                     \<or> (tier a = tier b \<and> task_id (s_task a) < task_id (s_task b))) out)"
proof -
  have dist': "distinct (map task_id tasks')"
    using assms by (metis distinct_map mset_eq_setD mset_eq_imp_distinct_iff)
  have sym: "mset tasks = mset tasks'" using assms(2) by simp
  have fwd: "topologicalSort tasks' = Some (Inr o')" if "topologicalSort tasks = Some (Inr o')" for o'
    using same_output_on_permutation [OF assms that] by blast
  have bwd: "topologicalSort tasks = Some (Inr o')" if "topologicalSort tasks' = Some (Inr o')" for o'
    using same_output_on_permutation [OF dist' sym that] by blast
  have total: "\<exists>r. topologicalSort ts = Some r" for ts
    using topologicalSort_returns [of ts] by blast
  have throws: "(\<exists>e. topologicalSort ts = Some (Inl e)) \<longleftrightarrow> (\<nexists>o'. topologicalSort ts = Some (Inr o'))" for ts
    using total [of ts] by (metis option.inject sum.exhaust sum.distinct(1))
  have "(\<exists>e. topologicalSort tasks' = Some (Inl e)) \<longleftrightarrow> (\<exists>e. topologicalSort tasks = Some (Inl e))"
    unfolding throws using fwd bwd by blast
  moreover have "topologicalSort tasks' = Some (Inr out) \<longleftrightarrow> topologicalSort tasks = Some (Inr out)"
    using fwd bwd by blast
  moreover have "topologicalSort tasks = Some (Inr out)
              \<longrightarrow> sorted_wrt (\<lambda>a b. tier a < tier b
                     \<or> (tier a = tier b \<and> task_id (s_task a) < task_id (s_task b))) out"
    using same_output_on_permutation [OF assms] by blast
  ultimately show ?thesis by blast
qed

theorem topologicalSort_order_independent_witness:
  "distinct (map task_id scenario_A) \<and> mset scenario_A_reordered = mset scenario_A
   \<and> topologicalSort scenario_A
       = Some (Inr [\<lparr>s_task = mk_task 1 [], tier = 0\<rparr>, \<lparr>s_task = mk_task 2 [1], tier = 1\<rparr>,
                    \<lparr>s_task = mk_task 3 [1, 2], tier = 2\<rparr>])
   \<and> topologicalSort scenario_A_reordered
       = Some (Inr [\<lparr>s_task = mk_task 1 [], tier = 0\<rparr>, \<lparr>s_task = mk_task 2 [1], tier = 1\<rparr>,
                    \<lparr>s_task = mk_task 3 [1, 2], tier = 2\<rparr>])
   \<and> sorted_wrt (\<lambda>a b. tier a < tier b
            \<or> (tier a = tier b \<and> task_id (s_task a) < task_id (s_task b)))
         [\<lparr>s_task = mk_task 1 [], tier = 0\<rparr>, \<lparr>s_task = mk_task 2 [1], tier = 1\<rparr>,
          \<lparr>s_task = mk_task 3 [1, 2], tier = 2\<rparr>]"
proof -
  have d: "distinct (map task_id scenario_A)"
    by (simp add: scenario_A_def mk_task_def)
  have m: "mset scenario_A_reordered = mset scenario_A"
    by (simp add: scenario_A_def scenario_A_reordered_def)
  from topologicalSort_order_independent [OF d m] d m scenario_A_sorted
  show ?thesis by blast
qed

text \<open>
  C7, as stated, fails: a task set with a self-dependency (task 2) whose traversal meets
  a missing reference first (task 1 depends on 99) fails with the unresolved-reference
  error, not with the cycle error.
\<close>

theorem topologicalSort_cycle_counterexample:
  "cyclic (taskMap_of missing_then_cycle)
   \<and> topologicalSort missing_then_cycle = Some (Inl (Task_referenced_but_not_found 99))"
proof -
  have "(2, 2) \<in> dep_rel (taskMap_of missing_then_cycle)"
    by (simp add: dep_rel_def taskMap_of_def missing_then_cycle_def mk_task_def)
  then have "cyclic (taskMap_of missing_then_cycle)"
    unfolding cyclic_def by blast
  with missing_then_cycle_sorted show ?thesis by blast
qed

text \<open>
  C7, amended. \<open>topologicalSort\<close> always returns or throws: a recursion of depth
  \<open>length tasks + 1\<close> is enough for every input. It throws exactly when the task set
  (as the map built from the input holds it) has a dependency cycle or a dependency id
  with no task. What it throws is one of two distinct errors and tells the truth: a cycle
  error names an id that lies on a cycle, an unresolved-reference error names a dependency
  id that no task has. With cycles and no missing reference the error is the cycle error;
  with missing references and no cycle it is the unresolved-reference error; with both,
  it is the one the traversal meets first.
\<close>

theorem topologicalSort_failure_modes:
  "topologicalSort tasks \<noteq> None
   \<and> ((\<exists>e. topologicalSort tasks = Some (Inl e))
        \<longleftrightarrow> cyclic (taskMap_of tasks) \<or> \<not> complete (taskMap_of tasks))
   \<and> (\<forall>e. topologicalSort tasks = Some (Inl e) \<longrightarrow>
          (\<exists>i. e = Circular_dependency_detected i \<and> (i, i) \<in> (dep_rel (taskMap_of tasks))\<^sup>+)
          \<or> (\<exists>i. e = Task_referenced_but_not_found i \<and> i \<notin> task_id ` set tasks
                  \<and> i \<in> Range (dep_rel (taskMap_of tasks))))
   \<and> (cyclic (taskMap_of tasks) \<and> complete (taskMap_of tasks)
        \<longrightarrow> (\<exists>i. topologicalSort tasks = Some (Inl (Circular_dependency_detected i))))
   \<and> (\<not> cyclic (taskMap_of tasks) \<and> \<not> complete (taskMap_of tasks)
        \<longrightarrow> (\<exists>i. topologicalSort tasks = Some (Inl (Task_referenced_but_not_found i))))"
proof -
  let ?tm = "taskMap_of tasks"
  let ?cyc = "\<lambda>e. \<exists>i. e = Circular_dependency_detected i \<and> (i, i) \<in> (dep_rel ?tm)\<^sup>+"
  let ?unres = "\<lambda>e. \<exists>i. e = Task_referenced_but_not_found i \<and> i \<notin> task_id ` set tasks
                  \<and> i \<in> Range (dep_rel ?tm)"
  have cyc: "cyclic ?tm" if "?cyc e" for e
    using that unfolding cyclic_def by blast
  have unres: "\<not> complete ?tm" if "?unres e" for e
    using that unfolding complete_def dom_taskMap_of by fastforce
  consider (returns) st where "entries_ok ?tm st" "visited st = dom ?tm"
      "topologicalSort tasks = Some (Inr (sort_key order_key (sorted_acc st)))"
    | (throws) e where "topologicalSort tasks = Some (Inl e)" "?cyc e \<or> ?unres e"
  proof (rule topologicalSort_cases [of tasks])
    fix e assume "topologicalSort tasks = Some (Inl e)" "error_sound ?tm (dom ?tm) e"
    then show thesis using throws error_sound_defect [of ?tm e] by (simp add: dom_taskMap_of)
  qed (rule returns)
  then show ?thesis
  proof cases
    case returns
    from final_complete [OF returns(1,2)] final_acyclic [OF returns(1,2)] returns(3)
    show ?thesis by simp
  next
    case throws
    have a: "cyclic ?tm \<or> \<not> complete ?tm" using throws(2) cyc unres by blast
    have b: "\<exists>i. e = Circular_dependency_detected i" if "complete ?tm"
      using throws(2) unres that by blast
    have c: "\<exists>i. e = Task_referenced_but_not_found i" if "\<not> cyclic ?tm"
      using throws(2) cyc that by blast
    show ?thesis
      using throws a b c by auto
  qed
qed

theorem topologicalSort_failure_modes_witness:
  "cyclic (taskMap_of self_dependent) \<and> complete (taskMap_of self_dependent)
   \<and> topologicalSort self_dependent = Some (Inl (Circular_dependency_detected 1))
   \<and> \<not> cyclic (taskMap_of scenario_C) \<and> \<not> complete (taskMap_of scenario_C)
   \<and> topologicalSort scenario_C = Some (Inl (Task_referenced_but_not_found 99))
   \<and> (\<exists>i. topologicalSort self_dependent = Some (Inl (Circular_dependency_detected i)))
   \<and> (\<exists>i. topologicalSort scenario_C = Some (Inl (Task_referenced_but_not_found i)))"
proof -
  have d1: "distinct (map task_id self_dependent)" and d2: "distinct (map task_id scenario_C)"
    by (simp_all add: self_dependent_def scenario_C_def)
  have "(1, 1) \<in> dep_rel (taskMap_of self_dependent)"
    by (simp add: dep_rel_def taskMap_of_def self_dependent_def mk_task_def)
  then have a: "cyclic (taskMap_of self_dependent)"
    unfolding cyclic_def by blast
  have b: "complete (taskMap_of self_dependent)"
    unfolding complete_taskMap_of [OF d1]
    by (simp add: referentially_complete_def self_dependent_def mk_task_def)
  have "acyclic (task_edges scenario_C)"
    by (rule acyclic_task_edges_by_rank [where f = uminus])
       (auto simp: scenario_C_def mk_task_def)
  then have c: "\<not> cyclic (taskMap_of scenario_C)"
    by (simp add: cyclic_taskMap_of [OF d2])
  have e: "\<not> complete (taskMap_of scenario_C)"
    unfolding complete_taskMap_of [OF d2]
    by (simp add: referentially_complete_def scenario_C_def mk_task_def)
  from topologicalSort_failure_modes [of self_dependent]
       topologicalSort_failure_modes [of scenario_C]
       a b c e self_dependent_sorted scenario_C_sorted
  show ?thesis by blast
qed

section \<open>The acyclicity check: stack, termination\<close>

lemma indexOf_drop:
  "x \<in> set xs \<Longrightarrow> 0 \<le> indexOf xs x \<and> drop (nat (indexOf xs x)) xs = dropWhile (\<lambda>y. y \<noteq> x) xs"
proof (induction xs)
  case Nil
  then show ?case by simp
next
  case (Cons a xs)
  show ?case
  proof (cases "a = x")
    case True
    then show ?thesis by simp
  next
    case False
    with Cons.prems have "x \<in> set xs" by simp
    from Cons.IH [OF this] False show ?thesis
      by (simp add: Let_def nat_add_distrib)
  qed
qed

lemma slice_indexOf:
  "x \<in> set xs \<Longrightarrow> slice xs (indexOf xs x) = dropWhile (\<lambda>y. y \<noteq> x) xs"
  using indexOf_drop [of x xs] by (simp add: slice_def)

lemma cvisit_on_stack:
  assumes "taskId \<notin> c_visited st" "taskId \<in> c_visiting st" "set path = c_visiting st"
  shows "cvisit (Suc n) tm taskId path st
           = Some (True, st\<lparr>c_errors := c_errors st
                @ [Circular_dependency (dropWhile (\<lambda>x. x \<noteq> taskId) path @ [taskId])]\<rparr>)"
  using assms by (simp add: Let_def slice_indexOf)

lemma keeps_refl: "keeps st st"
  by (simp add: keeps_def)

lemma keeps_trans: "keeps a b \<Longrightarrow> keeps b c \<Longrightarrow> keeps a c"
  unfolding keeps_def by auto

lemma cvisit_dependencies_keeps:
  assumes step: "\<And>t path st b st'. cvisit n tm t path st = Some (b, st') \<Longrightarrow> keeps st st'"
  shows "cvisit_dependencies n tm ds path st = Some st' \<Longrightarrow> keeps st st'"
proof (induction ds arbitrary: st)
  case Nil
  then show ?case by (simp add: keeps_refl)
next
  case (Cons d ds)
  then obtain b st1 where v: "cvisit n tm d path st = Some (b, st1)"
    and r: "cvisit_dependencies n tm ds path st1 = Some st'"
    by (auto split: option.splits)
  from step [OF v] Cons.IH [OF r] show ?case by (rule keeps_trans)
qed

lemma cvisit_keeps:
  "cvisit n tm t path st = Some (b, st') \<Longrightarrow> keeps st st'"
proof (induction n arbitrary: t path st b st')
  case 0
  then show ?case by simp
next
  case (Suc n)
  show ?case
  proof (cases "t \<in> c_visited st \<or> t \<in> c_visiting st")
    case True
    with Suc.prems show ?thesis
      by (auto simp: keeps_def Let_def split: if_splits)
  next
    case False
    let ?st1 = "st\<lparr>c_visiting := insert t (c_visiting st)\<rparr>"
    from False Suc.prems obtain st2 where
      body: "(case tm t of None \<Rightarrow> Some ?st1
              | Some task \<Rightarrow> cvisit_dependencies n tm (dependencies task) (path @ [t]) ?st1) = Some st2"
      and st': "st' = st2\<lparr>c_visiting := c_visiting st2 - {t}, c_visited := insert t (c_visited st2)\<rparr>"
      by (auto simp: Let_def split: option.splits)
    have "keeps ?st1 st2"
    proof (cases "tm t")
      case None
      with body show ?thesis by (simp add: keeps_refl)
    next
      case (Some task)
      with body have "cvisit_dependencies n tm (dependencies task) (path @ [t]) ?st1 = Some st2"
        by simp
      with Suc.IH show ?thesis by (rule cvisit_dependencies_keeps)
    qed
    with False show ?thesis
      unfolding keeps_def st' by auto
  qed
qed

lemma cvisit_visited:
  "cvisit n tm t path st = Some (b, st') \<Longrightarrow> t \<in> c_visited st' \<or> t \<in> c_visiting st"
  by (cases n) (auto simp: Let_def split: if_splits option.splits)

lemma cvisit_dependencies_fuel:
  assumes step: "\<And>t path st. card (dom tm - c_visiting st) < n \<Longrightarrow> cvisit n tm t path st \<noteq> None"
  shows "card (dom tm - c_visiting st) < n \<Longrightarrow> cvisit_dependencies n tm ds path st \<noteq> None"
proof (induction ds arbitrary: st)
  case Nil
  then show ?case by simp
next
  case (Cons d ds)
  from step [OF Cons.prems] obtain b st1 where v: "cvisit n tm d path st = Some (b, st1)"
    by fastforce
  from cvisit_keeps [OF v] have "c_visiting st1 = c_visiting st" by (simp add: keeps_def)
  with Cons.IH [of st1] Cons.prems v show ?case by simp
qed

lemma cvisit_fuel:
  assumes fin: "finite (dom tm)"
  shows "card (dom tm - c_visiting st) < n \<Longrightarrow> cvisit n tm t path st \<noteq> None"
proof (induction n arbitrary: t path st)
  case 0
  then show ?case by simp
next
  case (Suc n)
  show ?case
  proof (cases "t \<in> c_visited st \<or> t \<in> c_visiting st \<or> tm t = None")
    case True
    then show ?thesis by (auto simp: Let_def)
  next
    case False
    then obtain task where task: "tm t = Some task" by auto
    let ?st1 = "st\<lparr>c_visiting := insert t (c_visiting st)\<rparr>"
    have "t \<in> dom tm - c_visiting st" using False task by auto
    then have "card (dom tm - insert t (c_visiting st)) < card (dom tm - c_visiting st)"
      using fin by (intro psubset_card_mono) auto
    then have "card (dom tm - c_visiting ?st1) < n"
      using Suc.prems by simp
    with Suc.IH have "cvisit_dependencies n tm (dependencies task) (path @ [t]) ?st1 \<noteq> None"
      by (rule cvisit_dependencies_fuel)
    with False task show ?thesis
      by (auto simp: Let_def)
  qed
qed

lemma cvisit_tasks_fuel:
  assumes fin: "finite (dom tm)"
  shows "card (dom tm - c_visiting st) < n \<Longrightarrow> cvisit_tasks n tm ts st \<noteq> None"
proof (induction ts arbitrary: st)
  case Nil
  then show ?case by simp
next
  case (Cons a ts)
  show ?case
  proof (cases "task_id a \<in> c_visited st")
    case True
    with Cons show ?thesis by simp
  next
    case False
    from cvisit_fuel [OF fin Cons.prems] obtain b st1 where
      v: "cvisit n tm (task_id a) [] st = Some (b, st1)" by fastforce
    from cvisit_keeps [OF v] have "c_visiting st1 = c_visiting st" by (simp add: keeps_def)
    with Cons.IH [of st1] Cons.prems v False show ?thesis by simp
  qed
qed

lemma validateCircularDependencies_returns:
  obtains st where
    "cvisit_tasks (Suc (length tasks)) (taskMap_of tasks) tasks initial_cycle_state = Some st"
    "validateCircularDependencies tasks
       = Some \<lparr>valid = (c_errors st = []), errors = c_errors st\<rparr>"
proof -
  have "card (dom (taskMap_of tasks) - c_visiting initial_cycle_state) < Suc (length tasks)"
    using card_dom_taskMap_of [of tasks] by (simp add: initial_cycle_state_def)
  with cvisit_tasks_fuel [OF finite_dom_taskMap_of]
  obtain st where
    "cvisit_tasks (Suc (length tasks)) (taskMap_of tasks) tasks initial_cycle_state = Some st"
    by blast
  then show thesis
    using that [of st] by (simp add: validateCircularDependencies_def)
qed

section \<open>The acyclicity check on task sets without cycles\<close>

lemma cvisit_dependencies_no_error:
  assumes step: "\<And>t path st b st'. \<forall>v \<in> c_visiting st. (v, t) \<in> (dep_rel tm)\<^sup>+
            \<Longrightarrow> cvisit n tm t path st = Some (b, st') \<Longrightarrow> c_errors st' = c_errors st"
  shows "\<forall>v \<in> c_visiting st. \<forall>d \<in> set ds. (v, d) \<in> (dep_rel tm)\<^sup>+
         \<Longrightarrow> cvisit_dependencies n tm ds path st = Some st' \<Longrightarrow> c_errors st' = c_errors st"
proof (induction ds arbitrary: st)
  case Nil
  then show ?case by simp
next
  case (Cons d ds)
  from Cons.prems(2) obtain b st1 where v: "cvisit n tm d path st = Some (b, st1)"
    and r: "cvisit_dependencies n tm ds path st1 = Some st'"
    by (auto split: option.splits)
  have e1: "c_errors st1 = c_errors st"
    using _ v by (rule step) (use Cons.prems(1) in simp)
  have "c_visiting st1 = c_visiting st"
    using cvisit_keeps [OF v] by (simp add: keeps_def)
  with Cons.prems(1) have "\<forall>v \<in> c_visiting st1. \<forall>d \<in> set ds. (v, d) \<in> (dep_rel tm)\<^sup>+"
    by simp
  from Cons.IH [OF this r] e1 show ?case by simp
qed

lemma cvisit_no_error:
  assumes acyc: "acyclic (dep_rel tm)"
  shows "\<forall>v \<in> c_visiting st. (v, t) \<in> (dep_rel tm)\<^sup>+
         \<Longrightarrow> cvisit n tm t path st = Some (b, st') \<Longrightarrow> c_errors st' = c_errors st"
proof (induction n arbitrary: t path st b st')
  case 0
  then show ?case by simp
next
  case (Suc n)
  have nv: "t \<notin> c_visiting st"
    using Suc.prems(1) acyc by (auto simp: acyclic_def)
  show ?case
  proof (cases "t \<in> c_visited st")
    case True
    with Suc.prems(2) show ?thesis by simp
  next
    case False
    let ?st1 = "st\<lparr>c_visiting := insert t (c_visiting st)\<rparr>"
    from False nv Suc.prems(2) obtain st2 where
      body: "(case tm t of None \<Rightarrow> Some ?st1
              | Some task \<Rightarrow> cvisit_dependencies n tm (dependencies task) (path @ [t]) ?st1) = Some st2"
      and st': "st' = st2\<lparr>c_visiting := c_visiting st2 - {t}, c_visited := insert t (c_visited st2)\<rparr>"
      by (auto simp: Let_def split: option.splits)
    have "c_errors st2 = c_errors ?st1"
    proof (cases "tm t")
      case None
      with body show ?thesis by simp
    next
      case (Some task)
      with body have loop: "cvisit_dependencies n tm (dependencies task) (path @ [t]) ?st1 = Some st2"
        by simp
      have edge: "(t, d) \<in> dep_rel tm" if "d \<in> set (dependencies task)" for d
        using Some that by (rule dep_relI)
      have "\<forall>v \<in> c_visiting ?st1. \<forall>d \<in> set (dependencies task). (v, d) \<in> (dep_rel tm)\<^sup>+"
        using Suc.prems(1) edge by (auto intro: trancl_into_trancl)
      with Suc.IH show ?thesis using loop by (rule cvisit_dependencies_no_error)
    qed
    then show ?thesis by (simp add: st')
  qed
qed

lemma cvisit_tasks_no_error:
  assumes acyc: "acyclic (dep_rel tm)"
  shows "c_visiting st = {} \<Longrightarrow> cvisit_tasks n tm ts st = Some st' \<Longrightarrow> c_errors st' = c_errors st"
proof (induction ts arbitrary: st)
  case Nil
  then show ?case by simp
next
  case (Cons a ts)
  show ?case
  proof (cases "task_id a \<in> c_visited st")
    case True
    with Cons show ?thesis by simp
  next
    case False
    with Cons.prems(2) obtain b st1 where v: "cvisit n tm (task_id a) [] st = Some (b, st1)"
      and r: "cvisit_tasks n tm ts st1 = Some st'"
      by (auto split: option.splits)
    have "c_errors st1 = c_errors st"
      using acyc _ v by (rule cvisit_no_error) (simp add: Cons.prems(1))
    moreover have "c_visiting st1 = {}"
      using cvisit_keeps [OF v] Cons.prems(1) by (simp add: keeps_def)
    ultimately show ?thesis using Cons.IH [OF _ r] by simp
  qed
qed

lemma dep_rel_subset_task_edges: "dep_rel (taskMap_of tasks) \<subseteq> task_edges tasks"
  unfolding dep_rel_def task_edges_def taskMap_of_def
  by (auto dest!: map_of_SomeD)

lemma acyclic_existing_edges:
  assumes "acyclic (existing_edges tasks)"
  shows "acyclic (dep_rel (taskMap_of tasks))"
proof -
  let ?tm = "taskMap_of tasks"
  have edge: "(a, b) \<in> existing_edges tasks" if "(a, b) \<in> dep_rel ?tm" "b \<in> dom ?tm" for a b
    using that dep_rel_subset_task_edges [of tasks]
    by (auto simp: existing_edges_def dom_taskMap_of)
  have src: "a \<in> dom ?tm" if "(a, b) \<in> dep_rel ?tm" for a b
    using that by (auto simp: dep_rel_def)
  have walk: "(a, b) \<in> (existing_edges tasks)\<^sup>+"
    if "(a, b) \<in> (dep_rel ?tm)\<^sup>+" "b \<in> dom ?tm" for a b
    using that
  proof (induction rule: trancl_induct)
    case (base y)
    then show ?case by (simp add: edge r_into_trancl)
  next
    case (step y z)
    from step.hyps(2) have "y \<in> dom ?tm" by (rule src)
    from step.IH [OF this] edge [OF step.hyps(2) step.prems]
    show ?case by (rule trancl_into_trancl)
  qed
  show ?thesis
    unfolding acyclic_def
  proof (intro allI notI)
    fix x assume x: "(x, x) \<in> (dep_rel ?tm)\<^sup>+"
    then obtain z where "(x, z) \<in> dep_rel ?tm" by (meson tranclD)
    then have "x \<in> dom ?tm" by (rule src)
    from walk [OF x this] assms show False by (simp add: acyclic_def)
  qed
qed

text \<open>
  C10. \<open>validateCircularDependencies\<close> never reports a missing reference: when the
  dependency edges between the ids that exist form no cycle, it returns (the recursion
  bound is not reached) with \<open>valid = true\<close> and no message, whatever dependency ids
  are absent from the task set. An absent id is entered and left as a node without
  dependencies.
\<close>

theorem validateCircularDependencies_ignores_missing:
  assumes "acyclic (existing_edges tasks)"
  shows "validateCircularDependencies tasks = Some \<lparr>valid = True, errors = []\<rparr>"
proof -
  obtain st where
    run: "cvisit_tasks (Suc (length tasks)) (taskMap_of tasks) tasks initial_cycle_state = Some st"
    and res: "validateCircularDependencies tasks
                = Some \<lparr>valid = (c_errors st = []), errors = c_errors st\<rparr>"
    by (rule validateCircularDependencies_returns)
  have "c_errors st = c_errors initial_cycle_state"
    using acyclic_existing_edges [OF assms] _ run
    by (rule cvisit_tasks_no_error) (simp add: initial_cycle_state_def)
  then show ?thesis
    by (simp add: res initial_cycle_state_def)
qed

theorem validateCircularDependencies_ignores_missing_witness:
  "acyclic (existing_edges scenario_C)
   \<and> \<not> referentially_complete scenario_C
   \<and> validateCircularDependencies scenario_C = Some \<lparr>valid = True, errors = []\<rparr>"
proof -
  have "existing_edges scenario_C = {}"
    by (auto simp: existing_edges_def task_edges_def scenario_C_def mk_task_def)
  then have a: "acyclic (existing_edges scenario_C)"
    by (simp add: acyclic_def)
  have "\<not> referentially_complete scenario_C"
    by (simp add: referentially_complete_def scenario_C_def mk_task_def)
  with a validateCircularDependencies_ignores_missing [OF a] show ?thesis by blast
qed

section \<open>What the acyclicity check records\<close>

lemma is_stack_keeps:
  assumes "is_stack tm path st" "keeps st st'"
  shows "is_stack tm path st'"
  using assms unfolding is_stack_def keeps_def by auto

lemma dropWhile_snoc:
  "z \<notin> set ys \<Longrightarrow> dropWhile (\<lambda>x. x \<noteq> z) (ys @ [z]) = [z]"
  by (induction ys) auto

lemma dropWhile_last:
  assumes "distinct xs" "xs \<noteq> []"
  shows "dropWhile (\<lambda>x. x \<noteq> last xs) xs = [last xs]"
proof -
  have xs: "butlast xs @ [last xs] = xs"
    using assms(2) by (rule append_butlast_last_id)
  with assms(1) have "distinct (butlast xs @ [last xs])" by simp
  then have "last xs \<notin> set (butlast xs)" by simp
  then have "dropWhile (\<lambda>x. x \<noteq> last xs) (butlast xs @ [last xs]) = [last xs]"
    by (rule dropWhile_snoc)
  then show ?thesis by (simp only: xs)
qed

lemma stack_slice_closed_walk:
  assumes st: "is_stack tm path st" and t: "t \<in> set path"
    and e: "(last path, t) \<in> dep_rel tm"
  shows "closed_walk tm (Circular_dependency (dropWhile (\<lambda>x. x \<noteq> t) path @ [t]))"
proof -
  let ?c = "dropWhile (\<lambda>x. x \<noteq> t) path"
  have ne: "?c \<noteq> []" using t by simp
  have hd: "hd ?c = t" using hd_dropWhile [OF ne] by simp
  have d: "distinct ?c" using st by (simp add: is_stack_def)
  have split: "path = takeWhile (\<lambda>x. x \<noteq> t) path @ ?c" by simp
  have "successively (\<lambda>a b. (a, b) \<in> dep_rel tm) (takeWhile (\<lambda>x. x \<noteq> t) path @ ?c)"
    using st by (simp add: is_stack_def)
  then have sc: "successively (\<lambda>a b. (a, b) \<in> dep_rel tm) ?c"
    unfolding successively_append_iff by blast
  have "last (takeWhile (\<lambda>x. x \<noteq> t) path @ ?c) = last ?c"
    using ne by (rule last_appendR)
  then have "last path = last ?c"
    by (simp only: takeWhile_dropWhile_id)
  with e have "(last ?c, t) \<in> dep_rel tm" by simp
  with sc have "successively (\<lambda>a b. (a, b) \<in> dep_rel tm) (?c @ [t])"
    by (simp add: successively_append_iff)
  with ne hd d show ?thesis
    unfolding closed_walk_def by (intro exI [of _ ?c]) simp
qed

lemma well_recorded_more:
  assumes "well_recorded tm st" "closed_walk tm m"
  shows "well_recorded tm (st\<lparr>c_errors := c_errors st @ [m]\<rparr>)"
  using assms unfolding well_recorded_def self_recorded_def by auto

lemma cvisit_dependencies_walks:
  assumes step: "\<And>t st b st'. is_stack tm path st \<Longrightarrow> (last path, t) \<in> dep_rel tm
            \<Longrightarrow> well_recorded tm st \<Longrightarrow> cvisit n tm t path st = Some (b, st')
            \<Longrightarrow> well_recorded tm st'"
    and ne: "path \<noteq> []"
  shows "is_stack tm path st \<Longrightarrow> \<forall>d \<in> set ds. (last path, d) \<in> dep_rel tm
         \<Longrightarrow> well_recorded tm st \<Longrightarrow> cvisit_dependencies n tm ds path st = Some st'
         \<Longrightarrow> well_recorded tm st'
             \<and> (last path \<in> set ds
                  \<longrightarrow> Circular_dependency [last path, last path] \<in> set (c_errors st'))"
proof (induction ds arbitrary: st)
  case Nil
  then show ?case by simp
next
  case (Cons d ds)
  from Cons.prems(4) obtain b st1 where v: "cvisit n tm d path st = Some (b, st1)"
    and r: "cvisit_dependencies n tm ds path st1 = Some st'"
    by (auto split: option.splits)
  have s1: "is_stack tm path st1"
    using Cons.prems(1) cvisit_keeps [OF v] by (rule is_stack_keeps)
  have w1: "well_recorded tm st1"
    using Cons.prems(1) _ Cons.prems(3) v by (rule step) (use Cons.prems(2) in simp)
  from Cons.IH [OF s1 _ w1 r] Cons.prems(2) have
    a: "well_recorded tm st'"
       "last path \<in> set ds \<longrightarrow> Circular_dependency [last path, last path] \<in> set (c_errors st')"
    by simp_all
  have "Circular_dependency [last path, last path] \<in> set (c_errors st')" if d: "d = last path"
  proof -
    from v obtain n' where n: "n = Suc n'" by (cases n) auto
    have on: "d \<in> c_visiting st" "d \<notin> c_visited st" "set path = c_visiting st" "distinct path"
      using Cons.prems(1) ne d unfolding is_stack_def by auto
    from cvisit_on_stack [OF on(2,1,3), of n' tm] v n
    have "st1 = st\<lparr>c_errors := c_errors st
                @ [Circular_dependency (dropWhile (\<lambda>x. x \<noteq> d) path @ [d])]\<rparr>"
      by simp
    then have "Circular_dependency [last path, last path] \<in> set (c_errors st1)"
      using dropWhile_last [OF on(4) ne] d by simp
    moreover have "keeps st1 st'"
      using cvisit_keeps r by (rule cvisit_dependencies_keeps)
    ultimately show ?thesis by (auto simp: keeps_def)
  qed
  with a show ?case by auto
qed

lemma cvisit_walks:
  "is_stack tm path st \<Longrightarrow> path = [] \<or> (last path, t) \<in> dep_rel tm
   \<Longrightarrow> well_recorded tm st \<Longrightarrow> cvisit n tm t path st = Some (b, st')
   \<Longrightarrow> well_recorded tm st'"
proof (induction n arbitrary: t path st b st')
  case 0
  then show ?case by simp
next
  case (Suc n)
  show ?case
  proof (cases "t \<in> c_visited st")
    case True
    with Suc.prems show ?thesis by simp
  next
    case nvis: False
    show ?thesis
    proof (cases "t \<in> c_visiting st")
      case True
      have sp: "set path = c_visiting st" using Suc.prems(1) by (simp add: is_stack_def)
      with True have t: "t \<in> set path" by simp
      then have "(last path, t) \<in> dep_rel tm" using Suc.prems(2) by auto
      with Suc.prems(1) t
      have "closed_walk tm (Circular_dependency (dropWhile (\<lambda>x. x \<noteq> t) path @ [t]))"
        by (rule stack_slice_closed_walk)
      with Suc.prems(3)
      have "well_recorded tm (st\<lparr>c_errors := c_errors st
              @ [Circular_dependency (dropWhile (\<lambda>x. x \<noteq> t) path @ [t])]\<rparr>)"
        by (rule well_recorded_more)
      with cvisit_on_stack [OF nvis True sp, of n tm] Suc.prems(4) show ?thesis by simp
    next
      case False
      let ?st1 = "st\<lparr>c_visiting := insert t (c_visiting st)\<rparr>"
      from nvis False Suc.prems(4) obtain st2 where
        body: "(case tm t of None \<Rightarrow> Some ?st1
                | Some task \<Rightarrow> cvisit_dependencies n tm (dependencies task) (path @ [t]) ?st1) = Some st2"
        and st': "st' = st2\<lparr>c_visiting := c_visiting st2 - {t}, c_visited := insert t (c_visited st2)\<rparr>"
        by (auto simp: Let_def split: option.splits)
      have w1: "well_recorded tm ?st1"
        using Suc.prems(3) by (simp add: well_recorded_def self_recorded_def)
      show ?thesis
      proof (cases "tm t")
        case None
        with body have "st2 = ?st1" by simp
        with w1 None show ?thesis
          unfolding st' well_recorded_def self_recorded_def by auto
      next
        case (Some task)
        with body have loop: "cvisit_dependencies n tm (dependencies task) (path @ [t]) ?st1 = Some st2"
          by simp
        have s1: "is_stack tm (path @ [t]) ?st1"
          using Suc.prems(1,2) nvis False
          unfolding is_stack_def by (auto simp: successively_append_iff)
        have edges: "\<forall>d \<in> set (dependencies task). (last (path @ [t]), d) \<in> dep_rel tm"
          using Some by (simp add: dep_relI)
        have "well_recorded tm st2
              \<and> (last (path @ [t]) \<in> set (dependencies task)
                   \<longrightarrow> Circular_dependency [last (path @ [t]), last (path @ [t])] \<in> set (c_errors st2))"
        proof (rule cvisit_dependencies_walks [OF _ _ s1 edges w1 loop])
          show "path @ [t] \<noteq> []" by simp
        next
          fix u st b st'
          assume "is_stack tm (path @ [t]) st" "(last (path @ [t]), u) \<in> dep_rel tm"
            "well_recorded tm st" "cvisit n tm u (path @ [t]) st = Some (b, st')"
          then show "well_recorded tm st'"
            using Suc.IH [of "path @ [t]" st u b st'] by blast
        qed
        then have a: "well_recorded tm st2"
          "t \<in> set (dependencies task) \<longrightarrow> Circular_dependency [t, t] \<in> set (c_errors st2)"
          by simp_all
        show ?thesis
          unfolding st' well_recorded_def self_recorded_def
          using a Some by (auto simp: well_recorded_def self_recorded_def)
      qed
    qed
  qed
qed

lemma cvisit_tasks_walks:
  "c_visiting st = {} \<Longrightarrow> well_recorded tm st \<Longrightarrow> cvisit_tasks n tm ts st = Some st'
   \<Longrightarrow> well_recorded tm st' \<and> task_id ` set ts \<subseteq> c_visited st' \<and> c_visited st \<subseteq> c_visited st'"
proof (induction ts arbitrary: st)
  case Nil
  then show ?case by simp
next
  case (Cons a ts)
  show ?case
  proof (cases "task_id a \<in> c_visited st")
    case True
    with Cons.prems(3) have "cvisit_tasks n tm ts st = Some st'" by simp
    from Cons.IH [OF Cons.prems(1,2) this] True show ?thesis by auto
  next
    case False
    with Cons.prems(3) obtain b st1 where v: "cvisit n tm (task_id a) [] st = Some (b, st1)"
      and r: "cvisit_tasks n tm ts st1 = Some st'"
      by (auto split: option.splits)
    have k: "keeps st st1" using v by (rule cvisit_keeps)
    have s: "is_stack tm [] st" using Cons.prems(1) by (simp add: is_stack_def)
    have w1: "well_recorded tm st1"
      using s _ Cons.prems(2) v by (rule cvisit_walks) simp
    have v1: "c_visiting st1 = {}" using k Cons.prems(1) by (simp add: keeps_def)
    have "task_id a \<in> c_visited st1"
      using cvisit_visited [OF v] Cons.prems(1) by simp
    with Cons.IH [OF v1 w1 r] k show ?thesis by (auto simp: keeps_def)
  qed
qed


lemma well_recorded_initial: "well_recorded tm initial_cycle_state"
  by (simp add: well_recorded_def self_recorded_def initial_cycle_state_def)

lemma validateCircularDependencies_walks:
  obtains r where "validateCircularDependencies tasks = Some r"
    "\<forall>m \<in> set (errors r). closed_walk (taskMap_of tasks) m"
    "\<forall>i task. taskMap_of tasks i = Some task \<and> i \<in> set (dependencies task)
        \<longrightarrow> Circular_dependency [i, i] \<in> set (errors r)"
proof -
  let ?tm = "taskMap_of tasks"
  obtain st where
    run: "cvisit_tasks (Suc (length tasks)) ?tm tasks initial_cycle_state = Some st"
    and res: "validateCircularDependencies tasks
                = Some \<lparr>valid = (c_errors st = []), errors = c_errors st\<rparr>"
    by (rule validateCircularDependencies_returns)
  have "c_visiting initial_cycle_state = {}" by (simp add: initial_cycle_state_def)
  from cvisit_tasks_walks [OF this well_recorded_initial run]
  have w: "well_recorded ?tm st" and all: "task_id ` set tasks \<subseteq> c_visited st"
    by blast+
  have "Circular_dependency [i, i] \<in> set (c_errors st)"
    if "?tm i = Some task" "i \<in> set (dependencies task)" for i task
  proof -
    from that(1) have "i \<in> dom ?tm" by auto
    with all have "i \<in> c_visited st" by (auto simp: dom_taskMap_of)
    with w that show ?thesis unfolding well_recorded_def self_recorded_def by blast
  qed
  with w show thesis
    using that [of "\<lparr>valid = (c_errors st = []), errors = c_errors st\<rparr>"] res
    by (simp add: well_recorded_def)
qed

text \<open>
  C9. When the check is called on an id that is on the traversal stack, the message it
  records is the slice of the stack from that id's first occurrence to the top, followed
  by the id again, in traversal order. In a run, every message recorded this way is
  a closed walk along dependency edges that repeats only its first id; and for every task
  that lists its own id \<open>i\<close> the cycle of the single node \<open>i\<close> is recorded: its
  stack slice is \<open>[i]\<close>, the recorded list \<open>[i, i]\<close>.
\<close>

theorem recorded_cycle_is_stack_slice:
  "(taskId \<notin> c_visited st \<and> taskId \<in> c_visiting st \<and> set path = c_visiting st
      \<longrightarrow> cvisit (Suc n) tm taskId path st
            = Some (True, st\<lparr>c_errors := c_errors st
                 @ [Circular_dependency (dropWhile (\<lambda>x. x \<noteq> taskId) path @ [taskId])]\<rparr>))
   \<and> (\<exists>r. validateCircularDependencies tasks = Some r
          \<and> (\<forall>m \<in> set (errors r). closed_walk (taskMap_of tasks) m)
          \<and> (\<forall>i task. taskMap_of tasks i = Some task \<and> i \<in> set (dependencies task)
                 \<longrightarrow> Circular_dependency [i, i] \<in> set (errors r)))"
proof
  show "taskId \<notin> c_visited st \<and> taskId \<in> c_visiting st \<and> set path = c_visiting st
      \<longrightarrow> cvisit (Suc n) tm taskId path st
            = Some (True, st\<lparr>c_errors := c_errors st
                 @ [Circular_dependency (dropWhile (\<lambda>x. x \<noteq> taskId) path @ [taskId])]\<rparr>)"
    using cvisit_on_stack by blast
  show "\<exists>r. validateCircularDependencies tasks = Some r
          \<and> (\<forall>m \<in> set (errors r). closed_walk (taskMap_of tasks) m)
          \<and> (\<forall>i task. taskMap_of tasks i = Some task \<and> i \<in> set (dependencies task)
                 \<longrightarrow> Circular_dependency [i, i] \<in> set (errors r))"
    by (rule validateCircularDependencies_walks [of tasks]) blast
qed

lemma self_dependent_checked:
  "validateCircularDependencies self_dependent
     = Some \<lparr>valid = False, errors = [Circular_dependency [1, 1]]\<rparr>"
  by code_simp

lemma scenario_B_checked:
  "validateCircularDependencies scenario_B
     = Some \<lparr>valid = False, errors = [Circular_dependency [1, 3, 2, 1]]\<rparr>"
  by code_simp

theorem recorded_cycle_is_stack_slice_witness:
  "1 \<notin> c_visited on_stack_1_2 \<and> 1 \<in> c_visiting on_stack_1_2
   \<and> set [1, 2] = c_visiting on_stack_1_2
   \<and> cvisit (Suc 0) Map.empty 1 [1, 2] on_stack_1_2
       = Some (True, on_stack_1_2\<lparr>c_errors := [Circular_dependency [1, 2, 1]]\<rparr>)
   \<and> taskMap_of self_dependent 1 = Some (mk_task 1 [1])
   \<and> 1 \<in> set (dependencies (mk_task 1 [1]))
   \<and> validateCircularDependencies self_dependent
       = Some \<lparr>valid = False, errors = [Circular_dependency [1, 1]]\<rparr>
   \<and> closed_walk (taskMap_of self_dependent) (Circular_dependency [1, 1])
   \<and> validateCircularDependencies scenario_B
       = Some \<lparr>valid = False, errors = [Circular_dependency [1, 3, 2, 1]]\<rparr>
   \<and> closed_walk (taskMap_of scenario_B) (Circular_dependency [1, 3, 2, 1])"
proof -
  have h: "1 \<notin> c_visited on_stack_1_2" "1 \<in> c_visiting on_stack_1_2"
    "set [1, 2] = c_visiting on_stack_1_2" "c_errors on_stack_1_2 = []"
    by (auto simp: on_stack_1_2_def)
  have t: "taskMap_of self_dependent 1 = Some (mk_task 1 [1])"
    "1 \<in> set (dependencies (mk_task 1 [1]))"
    by (simp_all add: taskMap_of_def self_dependent_def mk_task_def)
  from recorded_cycle_is_stack_slice
         [of 1 on_stack_1_2 "[1, 2]" 0 Map.empty self_dependent] h
  have a: "cvisit (Suc 0) Map.empty 1 [1, 2] on_stack_1_2
       = Some (True, on_stack_1_2\<lparr>c_errors := [Circular_dependency [1, 2, 1]]\<rparr>)"
    and b: "closed_walk (taskMap_of self_dependent) (Circular_dependency [1, 1])"
    by (simp_all add: self_dependent_checked)
  from recorded_cycle_is_stack_slice
         [of 1 on_stack_1_2 "[1, 2]" 0 Map.empty scenario_B]
  have c: "closed_walk (taskMap_of scenario_B) (Circular_dependency [1, 3, 2, 1])"
    by (simp add: scenario_B_checked)
  from h t a b c self_dependent_checked scenario_B_checked show ?thesis by blast
qed

section \<open>The recursion bound does not show in the results\<close>

text \<open>A call that returns under some bound returns the same under every greater bound, so
  the bound \<open>length tasks + 1\<close> in \<open>topologicalSort\<close> and in
  \<open>validateCircularDependencies\<close> could be any greater number.\<close>

lemma visit_dependencies_deeper:
  assumes step: "\<And>t st r. visit n tm t st = Some r \<Longrightarrow> visit (Suc n) tm t st = Some r"
  shows "visit_dependencies n tm ds m st = Some r \<Longrightarrow> visit_dependencies (Suc n) tm ds m st = Some r"
proof (induction ds arbitrary: m st)
  case Nil
  then show ?case by simp
next
  case (Cons d ds)
  from Cons.prems obtain r1 where v: "visit n tm d st = Some r1"
    by (auto split: option.splits)
  note v' = step [OF v]
  show ?case
  proof (cases r1)
    case (Inl e)
    with Cons.prems v have "r = Inl e" by simp
    with v' Inl show ?thesis by (simp del: visit.simps)
  next
    case (Inr p)
    obtain dt st1 where p: "p = (dt, st1)" by (cases p)
    with Cons.prems v Inr have "visit_dependencies n tm ds (max m dt) st1 = Some r" by simp
    from Cons.IH [OF this] v' Inr p show ?thesis by (simp del: visit.simps)
  qed
qed

lemma visit_deeper: "visit n tm t st = Some r \<Longrightarrow> visit (Suc n) tm t st = Some r"
proof (induction n arbitrary: t st r)
  case 0
  then show ?case by simp
next
  case (Suc n)
  show ?case
  proof (cases "t \<in> visited st \<or> t \<in> visiting st \<or> tm t = None")
    case True
    with Suc.prems show ?thesis by (auto split: option.splits)
  next
    case False
    then obtain task where task: "tm t = Some task" by auto
    let ?st1 = "st\<lparr>visiting := insert t (visiting st)\<rparr>"
    from Suc.prems False task obtain r1 where
      loop: "visit_dependencies n tm (dependencies task) (- 1) ?st1 = Some r1"
      by (auto split: option.splits)
    from visit_dependencies_deeper [of n tm, OF Suc.IH loop]
    have "visit_dependencies (Suc n) tm (dependencies task) (- 1) ?st1 = Some r1" .
    with Suc.prems False task loop show ?thesis
      by (simp del: visit_dependencies.simps)
  qed
qed

lemma visit_tasks_deeper:
  "visit_tasks n tm ts st = Some r \<Longrightarrow> visit_tasks (Suc n) tm ts st = Some r"
proof (induction ts arbitrary: st)
  case Nil
  then show ?case by simp
next
  case (Cons a ts)
  show ?case
  proof (cases "task_id a \<in> visited st")
    case True
    with Cons show ?thesis by simp
  next
    case False
    with Cons.prems obtain r1 where v: "visit n tm (task_id a) st = Some r1"
      by (auto split: option.splits)
    note v' = visit_deeper [OF v]
    show ?thesis
    proof (cases r1)
      case (Inl e)
      with Cons.prems v False have "r = Inl e" by simp
      with v' Inl False show ?thesis by (simp del: visit.simps)
    next
      case (Inr p)
      obtain k st1 where p: "p = (k, st1)" by (cases p)
      with Cons.prems v Inr False have "visit_tasks n tm ts st1 = Some r" by simp
      from Cons.IH [OF this] v' Inr p False show ?thesis by (simp del: visit.simps)
    qed
  qed
qed

lemma visit_tasks_bound_irrelevant:
  assumes "Suc (length tasks) \<le> n"
  shows "visit_tasks n (taskMap_of tasks) tasks initial_sort_state
           = visit_tasks (Suc (length tasks)) (taskMap_of tasks) tasks initial_sort_state"
proof -
  let ?run = "\<lambda>k. visit_tasks k (taskMap_of tasks) tasks initial_sort_state"
  have "card (dom (taskMap_of tasks) - visiting initial_sort_state) < Suc (length tasks)"
    using card_dom_taskMap_of [of tasks] by (simp add: initial_sort_state_def)
  with visit_tasks_fuel [OF keyed_taskMap_of finite_dom_taskMap_of sort_inv_initial]
  obtain r where r: "?run (Suc (length tasks)) = Some r" by blast
  have "?run (Suc (length tasks) + k) = Some r" for k
    by (induction k) (simp_all add: r visit_tasks_deeper del: visit_tasks.simps)
  with assms r show ?thesis by (metis le_Suc_ex)
qed

lemma cvisit_dependencies_deeper:
  assumes step: "\<And>t path st r. cvisit n tm t path st = Some r \<Longrightarrow> cvisit (Suc n) tm t path st = Some r"
  shows "cvisit_dependencies n tm ds path st = Some r
         \<Longrightarrow> cvisit_dependencies (Suc n) tm ds path st = Some r"
proof (induction ds arbitrary: st)
  case Nil
  then show ?case by simp
next
  case (Cons d ds)
  from Cons.prems obtain b st1 where v: "cvisit n tm d path st = Some (b, st1)"
    and r: "cvisit_dependencies n tm ds path st1 = Some r"
    by (auto split: option.splits)
  from step [OF v] Cons.IH [OF r] show ?case by (simp del: cvisit.simps)
qed

lemma cvisit_deeper: "cvisit n tm t path st = Some r \<Longrightarrow> cvisit (Suc n) tm t path st = Some r"
proof (induction n arbitrary: t path st r)
  case 0
  then show ?case by simp
next
  case (Suc n)
  show ?case
  proof (cases "t \<in> c_visited st \<or> t \<in> c_visiting st \<or> tm t = None")
    case True
    with Suc.prems show ?thesis by (auto simp: Let_def)
  next
    case False
    then obtain task where task: "tm t = Some task" by auto
    let ?st1 = "st\<lparr>c_visiting := insert t (c_visiting st)\<rparr>"
    from Suc.prems False task obtain st2 where
      loop: "cvisit_dependencies n tm (dependencies task) (path @ [t]) ?st1 = Some st2"
      by (auto simp: Let_def split: option.splits)
    from cvisit_dependencies_deeper [of n tm, OF Suc.IH loop]
    have "cvisit_dependencies (Suc n) tm (dependencies task) (path @ [t]) ?st1 = Some st2" .
    with Suc.prems False task loop show ?thesis
      by (simp del: cvisit_dependencies.simps add: Let_def)
  qed
qed

lemma cvisit_tasks_deeper:
  "cvisit_tasks n tm ts st = Some r \<Longrightarrow> cvisit_tasks (Suc n) tm ts st = Some r"
proof (induction ts arbitrary: st)
  case Nil
  then show ?case by simp
next
  case (Cons a ts)
  show ?case
  proof (cases "task_id a \<in> c_visited st")
    case True
    with Cons show ?thesis by simp
  next
    case False
    with Cons.prems obtain b st1 where v: "cvisit n tm (task_id a) [] st = Some (b, st1)"
      and r: "cvisit_tasks n tm ts st1 = Some r"
      by (auto split: option.splits)
    from cvisit_deeper [OF v] Cons.IH [OF r] False show ?thesis
      by (simp del: cvisit.simps)
  qed
qed

lemma cvisit_tasks_bound_irrelevant:
  assumes "Suc (length tasks) \<le> n"
  shows "cvisit_tasks n (taskMap_of tasks) tasks initial_cycle_state
           = cvisit_tasks (Suc (length tasks)) (taskMap_of tasks) tasks initial_cycle_state"
proof -
  let ?run = "\<lambda>k. cvisit_tasks k (taskMap_of tasks) tasks initial_cycle_state"
  obtain st where r: "?run (Suc (length tasks)) = Some st"
    by (rule validateCircularDependencies_returns)
  have "?run (Suc (length tasks) + k) = Some st" for k
    by (induction k) (simp_all add: r cvisit_tasks_deeper del: cvisit_tasks.simps)
  with assms r show ?thesis by (metis le_Suc_ex)
qed

end
